theory Spec2Isabelle
  imports Complex_Main "HOL-Library.Word"
begin

unbundle bit_operations_syntax

text \<open>
  A shallow embedding of the two image scripts \<^verbatim>\<open>scripts/remove_interior_lines.py\<close> and
  \<^verbatim>\<open>scripts/generate_floor_mask.py\<close>.

  Conventions of the embedding.
  \<^item> A two-dimensional NumPy array of shape \<open>(h, w)\<close> is a function from the row index \<open>y\<close>
    and the column index \<open>x\<close> to the element, \<open>a y x\<close> for \<open>a[y, x]\<close>, together with the
    shape \<open>h\<close>, \<open>w\<close> passed alongside. Indices are integers, as in the source, where
    \<open>cx - 1\<close> may be \<open>-1\<close>; every read and write of the source is guarded by a bounds test
    or a \<open>range\<close> loop, and the model keeps these tests. An assignment \<open>a[y, x] = v\<close> is
    the function update of row \<open>y\<close> at column \<open>x\<close>.
  \<^item> \<open>uint8\<close> elements are \<open>8 word\<close>. The \<open>int32\<close> labels and statistics are integers:
    their values are bounded by the number of pixels of the image, and Pillow refuses
    images of more than about \<open>1.8 * 10^8\<close> pixels, far below \<open>2^31\<close>.
  \<^item> A Python list used as a stack (\<open>append\<close>, \<open>pop\<close>) is a list whose head is the top.
  \<^item> Pixels are pairs \<open>(x, y)\<close>, in the order the source pushes them.
  \<^item> Reading and writing image files is outside the model: a pipeline takes the decoded
    grayscale array and returns the array it would save.
  \<^item> Three names of the source are names of library constants here and are changed:
    \<open>mask\<close> is \<open>msk\<close>, \<open>total\<close> is \<open>total_px\<close>, and the kernel \<open>size\<close> is \<open>ksize\<close> where it
    is a parameter.
\<close>

section \<open>Arrays\<close>

type_synonym 'a grid = "int \<Rightarrow> int \<Rightarrow> 'a"

type_synonym pixel = "int \<times> int"

text \<open>\<open>a[y, x] = v\<close>\<close>

definition put :: "'a grid \<Rightarrow> int \<Rightarrow> int \<Rightarrow> 'a \<Rightarrow> 'a grid" where
  "put a y x v = a(y := (a y)(x := v))"

text \<open>The element at a pixel \<open>(x, y)\<close>.\<close>

definition pix :: "'a grid \<Rightarrow> pixel \<Rightarrow> 'a" where
  "pix a p = a (snd p) (fst p)"

text \<open>The elements of an array of shape \<open>(h, w)\<close> in row-major order (NumPy's flattening).\<close>

definition ravel :: "nat \<Rightarrow> nat \<Rightarrow> 'a grid \<Rightarrow> 'a list" where
  "ravel h w a = concat (map (\<lambda>y. map (\<lambda>x. a (int y) (int x)) [0..<w]) [0..<h])"

section \<open>Otsu threshold (\<open>remove_interior_lines.otsu_threshold\<close>)\<close>

text \<open>
  \<open>np.histogram(gray, bins=256, range=(0, 256))\<close> counts, for each \<open>t\<close> in \<open>0..255\<close>, the
  pixels of value \<open>t\<close>; it works on the flattened image, so the function takes the list of
  pixel values. \<open>total\<close> is \<open>gray.size\<close> and \<open>sum_total\<close> the dot product of
  \<open>arange(256)\<close> with the histogram.

  The accumulators \<open>sum_b\<close>, \<open>w_b\<close>, \<open>max_var\<close> and everything computed from them are
  binary64 floats in the source. They are real numbers here, and every floating-point
  operation applies a rounding function \<open>rnd\<close> to its exact result; \<open>rnd\<close> is a parameter
  of the model: the identity gives exact arithmetic, \<open>binary64\<close> below the arithmetic
  of the source. A division is a value of a sum
  type: a zero divisor is the branch \<open>Inl ZeroDivisionError\<close>. The loop is recursion
  over the remaining thresholds: \<open>continue\<close> goes on with the rest, \<open>break\<close> returns.
\<close>

datatype py_error = ZeroDivisionError

record otsu_state =
  sum_b :: real
  w_b :: real
  max_var :: real
  threshold :: nat

definition histogram :: "8 word list \<Rightarrow> nat \<Rightarrow> nat" where
  "histogram gray t = length (filter (\<lambda>v. unat v = t) gray)"

definition fdiv :: "(real \<Rightarrow> real) \<Rightarrow> real \<Rightarrow> real \<Rightarrow> py_error + real" where
  "fdiv rnd a b = (if b = 0 then Inl ZeroDivisionError else Inr (rnd (a / b)))"

fun otsu_loop ::
  "(real \<Rightarrow> real) \<Rightarrow> (nat \<Rightarrow> nat) \<Rightarrow> nat \<Rightarrow> nat \<Rightarrow> nat list \<Rightarrow> otsu_state \<Rightarrow> py_error + otsu_state"
where
  "otsu_loop rnd hist total_px sum_total [] s = Inr s"
| "otsu_loop rnd hist total_px sum_total (t # ts) s =
     (let wb = rnd (w_b s + real (hist t)) in
      if wb = 0 then otsu_loop rnd hist total_px sum_total ts (s\<lparr>w_b := wb\<rparr>)
      else
        let wf = rnd (real total_px - wb) in
        if wf = 0 then Inr (s\<lparr>w_b := wb\<rparr>)
        else
          let sb = rnd (sum_b s + real (t * hist t)) in
          case fdiv rnd sb wb of
            Inl e \<Rightarrow> Inl e
          | Inr m_b \<Rightarrow>
              (case fdiv rnd (rnd (real sum_total - sb)) wf of
                 Inl e \<Rightarrow> Inl e
               | Inr m_f \<Rightarrow>
                   let var_between = rnd (rnd (wb * wf) * rnd ((rnd (m_b - m_f))\<^sup>2)) in
                   if var_between > max_var s
                   then otsu_loop rnd hist total_px sum_total ts
                          (s\<lparr>w_b := wb, sum_b := sb, max_var := var_between, threshold := t\<rparr>)
                   else otsu_loop rnd hist total_px sum_total ts (s\<lparr>w_b := wb, sum_b := sb\<rparr>)))"

definition otsu_run :: "(real \<Rightarrow> real) \<Rightarrow> 8 word list \<Rightarrow> py_error + otsu_state" where
  "otsu_run rnd gray =
     (let hist = histogram gray;
          total_px = length gray;
          sum_total = sum_list (map (\<lambda>t. t * hist t) [0..<256])
      in otsu_loop rnd hist total_px sum_total [0..<256]
           \<lparr>sum_b = 0, w_b = 0, max_var = - 1, threshold = 0\<rparr>)"

definition otsu_threshold :: "(real \<Rightarrow> real) \<Rightarrow> 8 word list \<Rightarrow> py_error + nat" where
  "otsu_threshold rnd gray =
     (case otsu_run rnd gray of Inl e \<Rightarrow> Inl e | Inr s \<Rightarrow> Inr (threshold s))"




text \<open>
  The binarisation of the wall extractor, \<open>(gray < t).astype(np.uint8) * 255\<close>.
\<close>

definition binarize :: "nat \<Rightarrow> 8 word grid \<Rightarrow> 8 word grid" where
  "binarize t gray = (\<lambda>y x. if unat (gray y x) < t then 255 else 0)"

section \<open>Connected components (\<open>connected_components\<close>, the same function in both scripts)\<close>

text \<open>
  The four directions, in the order of the source's inner \<open>for\<close> loop.
\<close>

definition dirs :: "(int \<times> int) list" where
  "dirs = [(1, 0), (- 1, 0), (0, 1), (0, - 1)]"

text \<open>
  The accumulators of one flood fill (\<open>area\<close>, \<open>min_x\<close>, \<open>max_x\<close>, \<open>min_y\<close>,
  \<open>max_y\<close>) and a row of the statistics, \<open>(x, y, w, h, area)\<close>.
\<close>

record bbox =
  area :: int
  min_x :: int
  max_x :: int
  min_y :: int
  max_y :: int

type_synonym stat = "int \<times> int \<times> int \<times> int \<times> int"

text \<open>
  The body of the loop over the directions, for the popped pixel \<open>(cx, cy)\<close>: a neighbour
  outside the array, in the background or already labelled is skipped; otherwise it is
  labelled and pushed. \<open>current\<close> is a natural number: it starts at \<open>0\<close> and is only
  incremented.
\<close>

definition visit ::
  "nat \<Rightarrow> nat \<Rightarrow> 8 word grid \<Rightarrow> nat \<Rightarrow> pixel \<Rightarrow> int grid \<times> pixel list \<Rightarrow> int \<times> int
     \<Rightarrow> int grid \<times> pixel list"
where
  "visit h w msk current c s d =
     (case c of (cx, cy) \<Rightarrow> case d of (dx, dy) \<Rightarrow> case s of (labels, stack) \<Rightarrow>
        let nx = cx + dx; ny = cy + dy in
        if nx < 0 \<or> nx \<ge> int w \<or> ny < 0 \<or> ny \<ge> int h then (labels, stack)
        else if msk ny nx = 0 \<or> labels ny nx \<noteq> - 1 then (labels, stack)
        else (put labels ny nx (int current), (nx, ny) # stack))"

subsection \<open>Pixels of the grid, neighbours, and the effect of one round of visits\<close>

text \<open>
  The termination proof of the fill needs to know what the four visits of one round do.
  \<open>inb\<close> is the bounds test, \<open>fg\<close> a foreground pixel of the grid, \<open>neighbours p\<close> the four
  pixels the loop over \<open>dirs\<close> looks at, and \<open>visit_list\<close> the visits of a list of pixels
  (\<open>foldl_visit\<close>: one round of the source is \<open>visit_list\<close> on the neighbours). A round
  labels the unlabelled foreground pixels among them and pushes each once
  (\<open>visit_list_effect\<close>).
\<close>

definition inb :: "nat \<Rightarrow> nat \<Rightarrow> pixel \<Rightarrow> bool" where
  "inb h w p \<longleftrightarrow> 0 \<le> fst p \<and> fst p < int w \<and> 0 \<le> snd p \<and> snd p < int h"

definition neighbours :: "pixel \<Rightarrow> pixel list" where
  "neighbours p = map (\<lambda>d. (fst p + fst d, snd p + snd d)) dirs"

definition fg :: "nat \<Rightarrow> nat \<Rightarrow> 8 word grid \<Rightarrow> pixel \<Rightarrow> bool" where
  "fg h w msk p \<longleftrightarrow> inb h w p \<and> pix msk p \<noteq> 0"

definition unlabelled :: "nat \<Rightarrow> nat \<Rightarrow> 8 word grid \<Rightarrow> int grid \<Rightarrow> pixel set" where
  "unlabelled h w msk labels = {p. fg h w msk p \<and> pix labels p = - 1}"

definition visit_list ::
  "nat \<Rightarrow> nat \<Rightarrow> 8 word grid \<Rightarrow> nat \<Rightarrow> int grid \<times> pixel list \<Rightarrow> pixel list \<Rightarrow> int grid \<times> pixel list"
where
  "visit_list h w msk current s ps =
     foldl (\<lambda>s q. if fg h w msk q \<and> pix (fst s) q = - 1
                   then (put (fst s) (snd q) (fst q) (int current), q # snd s) else s) s ps"

lemma pix_put: "pix (put a y x v) p = (if p = (x, y) then v else pix a p)"
  by (cases p) (auto simp: pix_def put_def)

lemma finite_inb: "finite {p. inb h w p}"
proof -
  have "{p. inb h w p} \<subseteq> {0..<int w} \<times> {0..<int h}"
    by (auto simp: inb_def)
  then show ?thesis by (rule finite_subset) simp
qed

lemma finite_fg: "finite {p. fg h w msk p}"
  by (rule finite_subset [OF _ finite_inb [of h w]]) (auto simp: fg_def)

lemma finite_unlabelled: "finite (unlabelled h w msk labels)"
  by (rule finite_subset [OF _ finite_inb [of h w]]) (auto simp: unlabelled_def fg_def)

lemma visit_pix:
  "visit h w msk current c s d =
     (let q = (fst c + fst d, snd c + snd d)
      in if fg h w msk q \<and> pix (fst s) q = - 1
         then (put (fst s) (snd q) (fst q) (int current), q # snd s) else s)"
  by (cases c; cases d; cases s) (auto simp: visit_def Let_def fg_def inb_def pix_def)

lemma foldl_visit:
  "foldl (visit h w msk current c) s dirs = visit_list h w msk current s (neighbours c)"
  by (simp add: visit_list_def neighbours_def visit_pix dirs_def Let_def)

lemma visit_list_effect:
  "\<exists>new. visit_list h w msk current (labels, stack) ps =
      ((\<lambda>y x. if (x, y) \<in> set new then int current else labels y x), new @ stack) \<and>
      set new = {p \<in> set ps. fg h w msk p \<and> pix labels p = - 1} \<and> distinct new"
proof (induction ps rule: rev_induct)
  case Nil
  show ?case by (intro exI [of _ "[]"]) (simp add: visit_list_def)
next
  case (snoc p ps)
  then obtain new where new: "visit_list h w msk current (labels, stack) ps =
      ((\<lambda>y x. if (x, y) \<in> set new then int current else labels y x), new @ stack)"
    "set new = {p \<in> set ps. fg h w msk p \<and> pix labels p = - 1}" "distinct new"
    by blast
  let ?l1 = "\<lambda>y x. if (x, y) \<in> set new then int current else labels y x"
  have step: "visit_list h w msk current (labels, stack) (ps @ [p]) =
      (if fg h w msk p \<and> pix ?l1 p = - 1
       then (put ?l1 (snd p) (fst p) (int current), p # new @ stack) else (?l1, new @ stack))"
    by (simp add: visit_list_def new(1) [unfolded visit_list_def])
  have l1: "pix ?l1 p = - 1 \<longleftrightarrow> p \<notin> set new \<and> pix labels p = - 1"
    by (cases p) (simp add: pix_def)
  show ?case
  proof (cases "fg h w msk p \<and> pix ?l1 p = - 1")
    case True
    have "put ?l1 (snd p) (fst p) (int current) =
        (\<lambda>y x. if (x, y) \<in> set (p # new) then int current else labels y x)"
      by (cases p) (auto simp: put_def fun_eq_iff)
    then have "visit_list h w msk current (labels, stack) (ps @ [p]) =
       ((\<lambda>y x. if (x, y) \<in> set (p # new) then int current else labels y x), (p # new) @ stack)"
      using True by (simp add: step)
    moreover have "set (p # new) = {q \<in> set (ps @ [p]). fg h w msk q \<and> pix labels q = - 1}"
      using True new(2) l1 by auto
    moreover have "distinct (p # new)"
      using True new(3) l1 by simp
    ultimately show ?thesis by blast
  next
    case False
    then have "visit_list h w msk current (labels, stack) (ps @ [p]) = (?l1, new @ stack)"
      by (simp add: step)
    moreover have "set new = {q \<in> set (ps @ [p]). fg h w msk q \<and> pix labels q = - 1}"
      using False new(2) l1 by auto
    ultimately show ?thesis using new(3) by blast
  qed
qed

lemma visit_list_measure:
  "2 * card (unlabelled h w msk (fst (visit_list h w msk current (labels, stack) ps))) +
     length (snd (visit_list h w msk current (labels, stack) ps))
   \<le> 2 * card (unlabelled h w msk labels) + length stack"
proof -
  obtain new where new: "visit_list h w msk current (labels, stack) ps =
      ((\<lambda>y x. if (x, y) \<in> set new then int current else labels y x), new @ stack)"
    "set new = {p \<in> set ps. fg h w msk p \<and> pix labels p = - 1}" "distinct new"
    using visit_list_effect by blast
  let ?l1 = "\<lambda>y x. if (x, y) \<in> set new then int current else labels y x"
  have sub: "set new \<subseteq> unlabelled h w msk labels"
    using new(2) by (auto simp: unlabelled_def)
  have "unlabelled h w msk ?l1 = unlabelled h w msk labels - set new"
    by (auto simp: unlabelled_def pix_def)
  then have "card (unlabelled h w msk ?l1) = card (unlabelled h w msk labels) - length new"
    using sub new(3) by (simp add: card_Diff_subset distinct_card)
  moreover have "length new \<le> card (unlabelled h w msk labels)"
    using card_mono [OF finite_unlabelled sub] new(3) by (simp add: distinct_card)
  ultimately show ?thesis
    by (simp add: new(1))
qed

subsection \<open>The flood fill of one component and the scan\<close>

text \<open>
  The \<open>while stack\<close> loop: pop a pixel, count it, extend the bounding box, visit its four
  neighbours. The recursion terminates because every round either labels a pixel that was
  unlabelled or shortens the stack.
\<close>

function fill ::
  "nat \<Rightarrow> nat \<Rightarrow> 8 word grid \<Rightarrow> nat \<Rightarrow> int grid \<Rightarrow> pixel list \<Rightarrow> bbox \<Rightarrow> int grid \<times> bbox"
where
  "fill h w msk current labels [] b = (labels, b)"
| "fill h w msk current labels ((cx, cy) # stack) b =
     (let b' = \<lparr>area = area b + 1,
                min_x = min (min_x b) cx, max_x = max (max_x b) cx,
                min_y = min (min_y b) cy, max_y = max (max_y b) cy\<rparr>;
          s = foldl (visit h w msk current (cx, cy)) (labels, stack) dirs
      in fill h w msk current (fst s) (snd s) b')"
  by pat_completeness auto
termination
proof (relation "measure (\<lambda>(h, w, msk, current, labels, stack, b).
          2 * card (unlabelled h w msk labels) + length stack)")
  show "wf (measure (\<lambda>(h, w, msk, current, labels, stack, b).
          2 * card (unlabelled h w msk labels) + length stack))"
    by simp
next
  fix h w current :: nat and msk :: "8 word grid" and labels :: "int grid"
    and cx cy :: int and stack :: "pixel list" and b b' :: bbox and s :: "int grid \<times> pixel list"
  assume "s = foldl (visit h w msk current (cx, cy)) (labels, stack) dirs"
  then have s: "s = visit_list h w msk current (labels, stack) (neighbours (cx, cy))"
    by (simp add: foldl_visit)
  show "((h, w, msk, current, fst s, snd s, b'), (h, w, msk, current, labels, (cx, cy) # stack, b))
        \<in> measure (\<lambda>(h, w, msk, current, labels, stack, b).
          2 * card (unlabelled h w msk labels) + length stack)"
    using visit_list_measure [of h w msk current labels stack "neighbours (cx, cy)"]
    by (simp add: s case_prod_unfold)
qed

text \<open>
  The body of the double loop at the pixel \<open>(x, y)\<close>, on the state \<open>(labels, stats,
  current)\<close>. The stack is empty whenever a fill starts, so the fill starts from the
  one-element stack \<open>[(x, y)]\<close>.
\<close>

definition scan_pixel ::
  "nat \<Rightarrow> nat \<Rightarrow> 8 word grid \<Rightarrow> int grid \<times> stat list \<times> nat \<Rightarrow> int \<Rightarrow> int
     \<Rightarrow> int grid \<times> stat list \<times> nat"
where
  "scan_pixel h w msk st x y =
     (case st of (labels, stats, current) \<Rightarrow>
        if msk y x = 0 \<or> labels y x \<noteq> - 1 then st
        else
          case fill h w msk current (put labels y x (int current)) [(x, y)]
                 \<lparr>area = 0, min_x = x, max_x = x, min_y = y, max_y = y\<rparr>
          of (labels', b) \<Rightarrow>
            (labels',
             stats @ [(min_x b, min_y b, max_x b - min_x b + 1, max_y b - min_y b + 1, area b)],
             current + 1))"

definition scan_rows ::
  "nat \<Rightarrow> nat \<Rightarrow> 8 word grid \<Rightarrow> int grid \<times> stat list \<times> nat" where
  "scan_rows h w msk =
     foldl (\<lambda>st y. foldl (\<lambda>st x. scan_pixel h w msk st x y) st (map int [0..<w]))
       (\<lambda>y x. - 1, [], 0) (map int [0..<h])"

definition connected_components :: "nat \<Rightarrow> nat \<Rightarrow> 8 word grid \<Rightarrow> int grid \<times> stat list" where
  "connected_components h w msk =
     (case scan_rows h w msk of (labels, stats, current) \<Rightarrow> (labels, stats))"

section \<open>Boundary flood fill (\<open>generate_floor_mask\<close>, steps 1 to 3)\<close>

text \<open>
  Step 1, \<open>walls = (gray < WALL_THRESHOLD).astype(np.uint8)\<close>, is \<open>wall_mask\<close> at the end
  of this section. Step 2 is the flood fill from the border on the state \<open>(outside,
  stack)\<close>: the nested function \<open>push_if_valid\<close>, the two seeding loops over the top and
  bottom rows and the left and right columns, and the \<open>while stack\<close> loop, whose body
  repeats the test of \<open>push_if_valid\<close> inline for the four neighbours of the popped pixel
  (\<open>spread\<close>).
\<close>

definition WALL_THRESHOLD :: nat where "WALL_THRESHOLD = 40"

definition push_if_valid ::
  "nat \<Rightarrow> nat \<Rightarrow> 8 word grid \<Rightarrow> 8 word grid \<times> pixel list \<Rightarrow> int \<Rightarrow> int \<Rightarrow> 8 word grid \<times> pixel list"
where
  "push_if_valid h w walls s x y =
     (case s of (outside, stack) \<Rightarrow>
        if 0 \<le> x \<and> x < int w \<and> 0 \<le> y \<and> y < int h \<and> walls y x = 0 \<and> outside y x = 0
        then (put outside y x 1, (x, y) # stack)
        else (outside, stack))"

definition seed_border :: "nat \<Rightarrow> nat \<Rightarrow> 8 word grid \<Rightarrow> 8 word grid \<times> pixel list" where
  "seed_border h w walls =
     (let s0 = (\<lambda>y x. 0, []);
          s1 = foldl (\<lambda>s x. push_if_valid h w walls (push_if_valid h w walls s x 0) x (int h - 1))
                 s0 (map int [0..<w])
      in foldl (\<lambda>s y. push_if_valid h w walls (push_if_valid h w walls s 0 y) (int w - 1) y)
           s1 (map int [0..<h]))"

definition spread ::
  "nat \<Rightarrow> nat \<Rightarrow> 8 word grid \<Rightarrow> pixel \<Rightarrow> 8 word grid \<times> pixel list \<Rightarrow> int \<times> int \<Rightarrow> 8 word grid \<times> pixel list"
where
  "spread h w walls c s d =
     (case c of (cx, cy) \<Rightarrow> case d of (dx, dy) \<Rightarrow> case s of (outside, stack) \<Rightarrow>
        let nx = cx + dx; ny = cy + dy in
        if 0 \<le> nx \<and> nx < int w \<and> 0 \<le> ny \<and> ny < int h \<and> walls ny nx = 0 \<and> outside ny nx = 0
        then (put outside ny nx 1, (nx, ny) # stack)
        else (outside, stack))"


text \<open>
  For the termination proof: \<open>free\<close> is a non-wall pixel of the grid, \<open>push_list\<close> is
  \<open>push_if_valid\<close> along a list of pixels (one round of the loop is \<open>push_list\<close> on the
  neighbours of the popped pixel, \<open>foldl_spread\<close>), and \<open>unreached\<close> is the set of free
  pixels not yet marked. A round marks the unmarked free pixels among the neighbours
  and pushes each once, so it either marks a pixel or shortens the stack.
\<close>

definition free :: "nat \<Rightarrow> nat \<Rightarrow> 8 word grid \<Rightarrow> pixel \<Rightarrow> bool" where
  "free h w walls p \<longleftrightarrow> inb h w p \<and> pix walls p = 0"

definition push_list ::
  "nat \<Rightarrow> nat \<Rightarrow> 8 word grid \<Rightarrow> 8 word grid \<times> pixel list \<Rightarrow> pixel list \<Rightarrow> 8 word grid \<times> pixel list"
where
  "push_list h w walls s ps = foldl (\<lambda>s p. push_if_valid h w walls s (fst p) (snd p)) s ps"

definition unreached :: "nat \<Rightarrow> nat \<Rightarrow> 8 word grid \<Rightarrow> 8 word grid \<Rightarrow> pixel set" where
  "unreached h w walls outside = {p. free h w walls p \<and> pix outside p = 0}"

lemma finite_unreached: "finite (unreached h w walls outside)"
  by (rule finite_subset [OF _ finite_inb [of h w]]) (auto simp: unreached_def free_def)

lemma spread_push: "spread h w walls c s d = push_if_valid h w walls s (fst c + fst d) (snd c + snd d)"
  by (cases c; cases d; cases s) (simp add: spread_def push_if_valid_def Let_def)

lemma foldl_spread: "foldl (spread h w walls c) s dirs = push_list h w walls s (neighbours c)"
  by (simp add: push_list_def neighbours_def spread_push dirs_def)

lemma push_if_valid_pix:
  "push_if_valid h w walls (outside, stack) (fst p) (snd p) =
     (if free h w walls p \<and> pix outside p = 0 then (put outside (snd p) (fst p) 1, p # stack)
      else (outside, stack))"
  by (cases p) (auto simp: push_if_valid_def free_def inb_def pix_def)


lemma push_list_effect:
  "\<exists>new. push_list h w walls (outside, stack) ps =
      ((\<lambda>y x. if (x, y) \<in> set new then 1 else outside y x), new @ stack) \<and>
      set new = {p \<in> set ps. free h w walls p \<and> pix outside p = 0} \<and> distinct new"
proof (induction ps arbitrary: outside stack rule: rev_induct)
  case Nil
  show ?case by (intro exI [of _ "[]"]) (simp add: push_list_def)
next
  case (snoc p ps)
  obtain new where new: "push_list h w walls (outside, stack) ps =
      ((\<lambda>y x. if (x, y) \<in> set new then 1 else outside y x), new @ stack)"
    "set new = {p \<in> set ps. free h w walls p \<and> pix outside p = 0}" "distinct new"
    using snoc.IH by blast
  let ?o1 = "\<lambda>y x. if (x, y) \<in> set new then 1 else outside y x"
  have step: "push_list h w walls (outside, stack) (ps @ [p]) =
      push_if_valid h w walls (?o1, new @ stack) (fst p) (snd p)"
    by (simp add: push_list_def new(1) [unfolded push_list_def])
  have o1: "pix ?o1 p = 0 \<longleftrightarrow> p \<notin> set new \<and> pix outside p = 0"
    by (cases p) (simp add: pix_def)
  show ?case
  proof (cases "free h w walls p \<and> pix ?o1 p = 0")
    case True
    have "put ?o1 (snd p) (fst p) 1 = (\<lambda>y x. if (x, y) \<in> set (p # new) then 1 else outside y x)"
      by (cases p) (auto simp: put_def fun_eq_iff)
    then have "push_list h w walls (outside, stack) (ps @ [p]) =
       ((\<lambda>y x. if (x, y) \<in> set (p # new) then 1 else outside y x), (p # new) @ stack)"
      using True by (simp add: step push_if_valid_pix)
    moreover have "set (p # new) = {q \<in> set (ps @ [p]). free h w walls q \<and> pix outside q = 0}"
      using True new(2) o1 by auto
    moreover have "distinct (p # new)"
      using True new(3) o1 by simp
    ultimately show ?thesis by blast
  next
    case False
    then have "push_list h w walls (outside, stack) (ps @ [p]) = (?o1, new @ stack)"
      by (simp add: step push_if_valid_pix)
    moreover have "set new = {q \<in> set (ps @ [p]). free h w walls q \<and> pix outside q = 0}"
      using False new(2) o1 by auto
    ultimately show ?thesis using new(3) by blast
  qed
qed


lemma push_list_measure:
  "2 * card (unreached h w walls (fst (push_list h w walls (outside, stack) ps))) +
     length (snd (push_list h w walls (outside, stack) ps))
   \<le> 2 * card (unreached h w walls outside) + length stack"
proof -
  obtain new where new: "push_list h w walls (outside, stack) ps =
      ((\<lambda>y x. if (x, y) \<in> set new then 1 else outside y x), new @ stack)"
    "set new = {p \<in> set ps. free h w walls p \<and> pix outside p = 0}" "distinct new"
    using push_list_effect by blast
  let ?o1 = "\<lambda>y x. if (x, y) \<in> set new then 1 else outside y x"
  have sub: "set new \<subseteq> unreached h w walls outside"
    using new(2) by (auto simp: unreached_def)
  have "unreached h w walls ?o1 = unreached h w walls outside - set new"
    by (auto simp: unreached_def pix_def)
  then have "card (unreached h w walls ?o1) = card (unreached h w walls outside) - length new"
    using sub new(3) by (simp add: card_Diff_subset distinct_card)
  moreover have "length new \<le> card (unreached h w walls outside)"
    using card_mono [OF finite_unreached sub] new(3) by (simp add: distinct_card)
  ultimately show ?thesis
    by (simp add: new(1))
qed


function flood :: "nat \<Rightarrow> nat \<Rightarrow> 8 word grid \<Rightarrow> 8 word grid \<Rightarrow> pixel list \<Rightarrow> 8 word grid" where
  "flood h w walls outside [] = outside"
| "flood h w walls outside (c # stack) =
     (let s = foldl (spread h w walls c) (outside, stack) dirs
      in flood h w walls (fst s) (snd s))"
  by pat_completeness auto
termination
proof (relation "measure (\<lambda>(h, w, walls, outside, stack).
          2 * card (unreached h w walls outside) + length stack)")
  show "wf (measure (\<lambda>(h, w, walls, outside, stack).
          2 * card (unreached h w walls outside) + length stack))"
    by simp
next
  fix h w :: nat and walls outside :: "8 word grid" and c :: pixel and stack :: "pixel list"
    and s :: "8 word grid \<times> pixel list"
  assume "s = foldl (spread h w walls c) (outside, stack) dirs"
  then have s: "s = push_list h w walls (outside, stack) (neighbours c)"
    by (simp add: foldl_spread)
  show "((h, w, walls, fst s, snd s), (h, w, walls, outside, c # stack))
        \<in> measure (\<lambda>(h, w, walls, outside, stack).
          2 * card (unreached h w walls outside) + length stack)"
    using push_list_measure [of h w walls outside stack "neighbours c"]
    by (simp add: s case_prod_unfold)
qed

text \<open>
  The outside mask after the fill, the candidate floor of step 3
  (\<open>((walls == 0) & (outside == 0)).astype(np.uint8)\<close>), and the wall mask of step 1.
\<close>

definition outside_mask :: "nat \<Rightarrow> nat \<Rightarrow> 8 word grid \<Rightarrow> 8 word grid" where
  "outside_mask h w walls =
     (case seed_border h w walls of (outside, stack) \<Rightarrow> flood h w walls outside stack)"

definition floor_mask :: "8 word grid \<Rightarrow> 8 word grid \<Rightarrow> 8 word grid" where
  "floor_mask walls outside = (\<lambda>y x. if walls y x = 0 \<and> outside y x = 0 then 1 else 0)"

definition wall_mask :: "8 word grid \<Rightarrow> 8 word grid" where
  "wall_mask gray = (\<lambda>y x. if unat (gray y x) < WALL_THRESHOLD then 1 else 0)"

section \<open>The two pipelines\<close>

subsection \<open>Component filter (the same loops in both scripts)\<close>

text \<open>
  \<open>for idx, (_, _, _, _, area) in enumerate(stats): if area >= MIN: keep.add(idx)\<close>, then
  \<open>for idx in keep: clean[labels == idx] = 1\<close> on a zero array. The Python set \<open>keep\<close> is
  the list of its elements in the order of insertion; the order in which the second loop
  visits them does not change the result (see \<open>clean_mask_pix\<close> below).
\<close>

definition stat_area :: "stat \<Rightarrow> int" where
  "stat_area st = (case st of (x, y, bw, bh, a) \<Rightarrow> a)"

definition keep_large :: "int \<Rightarrow> stat list \<Rightarrow> nat list" where
  "keep_large min_area stats =
     foldl (\<lambda>keep (idx, st). if stat_area st \<ge> min_area then keep @ [idx] else keep)
       [] (enumerate 0 stats)"

definition mark_label :: "int grid \<Rightarrow> 8 word grid \<Rightarrow> nat \<Rightarrow> 8 word grid" where
  "mark_label labels clean idx = (\<lambda>y x. if labels y x = int idx then 1 else clean y x)"

definition clean_mask :: "int grid \<Rightarrow> nat list \<Rightarrow> 8 word grid" where
  "clean_mask labels keep = foldl (mark_label labels) (\<lambda>y x. 0) keep"

definition filter_components :: "int \<Rightarrow> nat \<Rightarrow> nat \<Rightarrow> 8 word grid \<Rightarrow> 8 word grid" where
  "filter_components min_area h w msk =
     (case connected_components h w msk of
        (labels, stats) \<Rightarrow> clean_mask labels (keep_large min_area stats))"

subsection \<open>Wall extractor (\<open>remove_interior_lines\<close>)\<close>

definition MIN_WALL_THICKNESS_PX :: nat where "MIN_WALL_THICKNESS_PX = 6"
definition MIN_COMPONENT_AREA_PX :: int where "MIN_COMPONENT_AREA_PX = 1200"
definition DILATION_ITERATIONS :: nat where "DILATION_ITERATIONS = 2"
definition EROSION_ITERATIONS :: nat where "EROSION_ITERATIONS = 6"

text \<open>
  Pillow's \<open>ImageFilter.MinFilter(size)\<close> and \<open>ImageFilter.MaxFilter(size)\<close> are library
  code; the pipelines take them as parameters: a filter maps the kernel size, the shape
  and an image to the filtered image.
\<close>

type_synonym rank_filter = "nat \<Rightarrow> nat \<Rightarrow> nat \<Rightarrow> 8 word grid \<Rightarrow> 8 word grid"

text \<open>\<open>(a > 0).astype(np.uint8)\<close> and \<open>(a * 255).astype(np.uint8)\<close>.\<close>

definition positive :: "8 word grid \<Rightarrow> 8 word grid" where
  "positive a = (\<lambda>y x. if a y x > 0 then 1 else 0)"

definition times255 :: "8 word grid \<Rightarrow> 8 word grid" where
  "times255 a = (\<lambda>y x. a y x * 255)"

definition remove_interior_lines ::
  "(real \<Rightarrow> real) \<Rightarrow> rank_filter \<Rightarrow> rank_filter \<Rightarrow> nat \<Rightarrow> nat \<Rightarrow> 8 word grid
     \<Rightarrow> py_error + 8 word grid"
where
  "remove_interior_lines rnd MinFilter MaxFilter h w gray =
     (case otsu_threshold rnd (ravel h w gray) of
        Inl e \<Rightarrow> Inl e
      | Inr t \<Rightarrow>
          let binary = binarize t gray;
              size = max 1 (MIN_WALL_THICKNESS_PX OR 1);
              opened = MaxFilter size h w (MinFilter size h w binary);
              dilated = (MaxFilter size h w ^^ DILATION_ITERATIONS) opened;
              arr = positive dilated;
              clean = filter_components MIN_COMPONENT_AREA_PX h w arr;
              erosion_size = max 1 ((MIN_WALL_THICKNESS_PX div 2) OR 1);
              thinned = (MinFilter erosion_size h w ^^ EROSION_ITERATIONS) (times255 clean);
              clean = positive thinned
          in Inr (\<lambda>y x. (1 - clean y x) * 255))"

subsection \<open>Floor filler (\<open>generate_floor_mask\<close>, steps 3 to 5)\<close>

definition MIN_FLOOR_AREA_PX :: int where "MIN_FLOOR_AREA_PX = 500"
definition SMOOTH_ITERATIONS :: nat where "SMOOTH_ITERATIONS = 1"

type_synonym rgb = "8 word \<times> 8 word \<times> 8 word"

text \<open>
  The kept floor: the candidate floor without its small components, then smoothed
  (\<open>MaxFilter(3)\<close> followed by \<open>MinFilter(3)\<close>, \<open>SMOOTH_ITERATIONS\<close> times).
\<close>

definition kept_floor ::
  "rank_filter \<Rightarrow> rank_filter \<Rightarrow> nat \<Rightarrow> nat \<Rightarrow> 8 word grid \<Rightarrow> 8 word grid" where
  "kept_floor MinFilter MaxFilter h w gray =
     (let walls = wall_mask gray;
          outside = outside_mask h w walls;
          floor = floor_mask walls outside;
          clean = filter_components MIN_FLOOR_AREA_PX h w floor
      in if SMOOTH_ITERATIONS > 0
         then positive (((\<lambda>pil. MinFilter 3 h w (MaxFilter 3 h w pil)) ^^ SMOOTH_ITERATIONS)
                          (times255 clean))
         else clean)"

text \<open>
  The texture is an array of shape \<open>(th, tw, 3)\<close>: a list of \<open>th\<close> rows of \<open>tw\<close> pixels.
  \<open>np.tile(tex_arr, (reps_y, reps_x, 1))\<close> repeats every row \<open>reps_x\<close> times and the list of
  rows \<open>reps_y\<close> times; \<open>[:h, :w, :]\<close> keeps the first \<open>h\<close> rows and the first \<open>w\<close> pixels of
  each. The two integer divisions raise \<open>ZeroDivisionError\<close> on a zero divisor.
\<close>

definition np_tile :: "'a list list \<Rightarrow> nat \<Rightarrow> nat \<Rightarrow> 'a list list" where
  "np_tile a reps_y reps_x =
     concat (replicate reps_y (map (\<lambda>row. concat (replicate reps_x row)) a))"

definition tile_texture :: "rgb list list \<Rightarrow> nat \<Rightarrow> nat \<Rightarrow> py_error + rgb list list" where
  "tile_texture tex_arr h w =
     (let th = length tex_arr in
      if th = 0 then Inl ZeroDivisionError
      else
        let tw = length (hd tex_arr);
            reps_y = (h + th - 1) div th in
        if tw = 0 then Inl ZeroDivisionError
        else
          let reps_x = (w + tw - 1) div tw in
          Inr (map (take w) (take h (np_tile tex_arr reps_y reps_x))))"

text \<open>
  The composition: a white canvas, \<open>out[walls == 1] = (0, 0, 0)\<close>, then
  \<open>out[clean == 1] = tiled[clean == 1]\<close>.
\<close>

definition compose ::
  "8 word grid \<Rightarrow> 8 word grid \<Rightarrow> rgb list list \<Rightarrow> rgb grid" where
  "compose walls clean tiled =
     (let out0 = (\<lambda>y x. (255, 255, 255));
          out1 = (\<lambda>y x. if walls y x = 1 then (0, 0, 0) else out0 y x)
      in (\<lambda>y x. if clean y x = 1 then tiled ! nat y ! nat x else out1 y x))"

definition generate_floor_mask ::
  "rank_filter \<Rightarrow> rank_filter \<Rightarrow> rgb list list \<Rightarrow> nat \<Rightarrow> nat \<Rightarrow> 8 word grid \<Rightarrow> py_error + rgb grid"
where
  "generate_floor_mask MinFilter MaxFilter tex_arr h w gray =
     (let walls = wall_mask gray;
          clean = kept_floor MinFilter MaxFilter h w gray
      in case tile_texture tex_arr h w of
           Inl e \<Rightarrow> Inl e
         | Inr tiled \<Rightarrow> Inr (compose walls clean tiled))"

section \<open>Erosion and dilation\<close>

text \<open>
  Modelled from the spec: Pillow's \<open>ImageFilter.MinFilter\<close> and \<open>ImageFilter.MaxFilter\<close>,
  which the two scripts call and which are library code outside the sources. Section 4.2
  of the specification describes them: the filtered value at a pixel is the minimum
  (erosion) or maximum (dilation) over the \<open>kernelSize \<times> kernelSize\<close> neighbourhood of the
  pixel, clipped to the image bounds. \<open>window ksize h w p\<close> lists the pixels of that
  clipped neighbourhood, row by row.
\<close>

definition window :: "nat \<Rightarrow> nat \<Rightarrow> nat \<Rightarrow> pixel \<Rightarrow> pixel list" where
  "window ksize h w p =
     (let r = int (ksize div 2)
      in concat (map (\<lambda>y. map (\<lambda>x. (x, y)) [max 0 (fst p - r) .. min (int w - 1) (fst p + r)])
                  [max 0 (snd p - r) .. min (int h - 1) (snd p + r)]))"

text \<open>Modelled from the spec: erosion, the minimum over the clipped neighbourhood.\<close>

definition min_filter :: rank_filter where
  "min_filter ksize h w a =
     (\<lambda>y x. if inb h w (x, y) then Min (set (map (pix a) (window ksize h w (x, y)))) else a y x)"

text \<open>Modelled from the spec: dilation, the maximum over the clipped neighbourhood.\<close>

definition max_filter :: rank_filter where
  "max_filter ksize h w a =
     (\<lambda>y x. if inb h w (x, y) then Max (set (map (pix a) (window ksize h w (x, y)))) else a y x)"

section \<open>Command-line entry points\<close>

text \<open>
  Both scripts end with the same guard: with fewer than three entries in \<open>sys.argv\<close>
  (the program name and two positional arguments) the usage line is printed and the process
  exits with status 1; otherwise the pipeline is called on \<open>sys.argv[1]\<close> and
  \<open>sys.argv[2]\<close>. The outcome of an entry point is either that exit (message and status)
  or the call of the pipeline with its two paths.
\<close>

datatype outcome = Exit string int | Run string string

definition main_remove_interior_lines :: "string list \<Rightarrow> outcome" where
  "main_remove_interior_lines argv =
     (if length argv < 3
      then Exit ''Usage: python3 scripts/remove_interior_lines.py <input_image> <output_image>'' 1
      else Run (argv ! 1) (argv ! 2))"

definition main_generate_floor_mask :: "string list \<Rightarrow> outcome" where
  "main_generate_floor_mask argv =
     (if length argv < 3
      then Exit ''Usage: python3 scripts/generate_floor_mask.py <walls_only.png> <floor_mask.png>'' 1
      else Run (argv ! 1) (argv ! 2))"

text \<open>The positional arguments are the entries of \<open>sys.argv\<close> after the program name.\<close>

definition positional :: "string list \<Rightarrow> string list" where
  "positional argv = tl argv"

section \<open>Specification-level notions\<close>

text \<open>
  The notions in which the results are stated (candidate thresholds, 4-connectivity,
  components, the border, row-major order) and the invariants of the loops.
\<close>

subsection \<open>Otsu threshold\<close>

text \<open>
  \<open>cum_w gray t\<close> is the number of pixels of value at most \<open>t\<close> (the background weight at
  candidate \<open>t\<close>) and \<open>cum_s gray t\<close> the sum of their values. A candidate is a threshold at
  which both classes are non-empty. \<open>between_var\<close> is the between-class variance
  \<open>w_b * w_f * (m_b - m_f)\<^sup>2\<close> at a candidate, with the roundings of the source's
  floating-point operations: \<open>between_var binary64\<close> is the value the loop computes.
  \<open>exact_var\<close> is the same variance in exact arithmetic, the quantity of the textbook
  definition of the Otsu threshold.

  \<open>float_rounding N rnd\<close> states what the proofs use of the rounding: it is exact on the
  natural numbers up to \<open>N\<close> (binary64 is exact on integers below \<open>2^53\<close>) and maps
  non-negative numbers to non-negative numbers.
\<close>

definition cum_w :: "8 word list \<Rightarrow> nat \<Rightarrow> nat" where
  "cum_w gray t = (\<Sum>i\<le>t. histogram gray i)"

definition cum_s :: "8 word list \<Rightarrow> nat \<Rightarrow> nat" where
  "cum_s gray t = (\<Sum>i\<le>t. i * histogram gray i)"

definition candidate :: "8 word list \<Rightarrow> nat \<Rightarrow> bool" where
  "candidate gray t \<longleftrightarrow> t < 256 \<and> 0 < cum_w gray t \<and> cum_w gray t < length gray"

definition between_var :: "(real \<Rightarrow> real) \<Rightarrow> 8 word list \<Rightarrow> nat \<Rightarrow> real" where
  "between_var rnd gray t =
     (let wb = real (cum_w gray t);
          wf = real (length gray) - wb;
          sb = real (cum_s gray t);
          m_b = rnd (sb / wb);
          m_f = rnd (rnd (real (cum_s gray 255) - sb) / wf)
      in rnd (rnd (wb * wf) * rnd ((rnd (m_b - m_f))\<^sup>2)))"


definition float_rounding :: "nat \<Rightarrow> (real \<Rightarrow> real) \<Rightarrow> bool" where
  "float_rounding N rnd \<longleftrightarrow>
     (\<forall>n\<le>N. rnd (real n) = real n) \<and> (\<forall>x. 0 \<le> x \<longrightarrow> 0 \<le> rnd x)"

definition otsu_best :: "(real \<Rightarrow> real) \<Rightarrow> 8 word list \<Rightarrow> nat \<Rightarrow> real \<Rightarrow> nat \<Rightarrow> bool" where
  "otsu_best rnd gray k mv t \<longleftrightarrow>
     (if \<exists>u<k. candidate gray u
      then candidate gray t \<and> t < k \<and> mv = between_var rnd gray t \<and>
           (\<forall>u<k. candidate gray u \<longrightarrow>
               between_var rnd gray u \<le> mv \<and> (between_var rnd gray u = mv \<longrightarrow> t \<le> u))
      else mv = - 1 \<and> t = 0)"

subsection \<open>Connected components\<close>

text \<open>
  Two foreground pixels of the grid are one step apart when they are 4-adjacent;
  \<open>component h w msk p\<close> is the set of pixels connected to \<open>p\<close> by a chain of such steps.
\<close>

definition fg_step :: "nat \<Rightarrow> nat \<Rightarrow> 8 word grid \<Rightarrow> (pixel \<times> pixel) set" where
  "fg_step h w msk = {(p, q). fg h w msk p \<and> fg h w msk q \<and> q \<in> set (neighbours p)}"

definition component :: "nat \<Rightarrow> nat \<Rightarrow> 8 word grid \<Rightarrow> pixel \<Rightarrow> pixel set" where
  "component h w msk p = {q. (p, q) \<in> (fg_step h w msk)\<^sup>*}"

text \<open>
  The invariant of one fill. \<open>L0\<close> is the label grid before the fill, \<open>p0\<close> its seed and
  \<open>cur\<close> its label: labels change only from \<open>-1\<close> to \<open>cur\<close> and only inside the component
  of the seed; the stack holds distinct pixels labelled \<open>cur\<close>; every foreground neighbour
  of a pixel labelled \<open>cur\<close> that has left the stack is labelled \<open>cur\<close>; and the
  accumulators describe the set \<open>D\<close> of pixels popped so far (\<open>bbox_ok\<close>: the count, the
  bounds, and each bound attained in \<open>D\<close> or at the seed).
\<close>

definition bbox_ok :: "pixel set \<Rightarrow> pixel \<Rightarrow> bbox \<Rightarrow> bool" where
  "bbox_ok D p0 b \<longleftrightarrow>
     area b = int (card D) \<and>
     (\<forall>p\<in>D. min_x b \<le> fst p \<and> fst p \<le> max_x b \<and> min_y b \<le> snd p \<and> snd p \<le> max_y b) \<and>
     (\<exists>p\<in>insert p0 D. fst p = min_x b) \<and> (\<exists>p\<in>insert p0 D. fst p = max_x b) \<and>
     (\<exists>p\<in>insert p0 D. snd p = min_y b) \<and> (\<exists>p\<in>insert p0 D. snd p = max_y b)"

definition fill_inv ::
  "nat \<Rightarrow> nat \<Rightarrow> 8 word grid \<Rightarrow> nat \<Rightarrow> int grid \<Rightarrow> pixel \<Rightarrow> int grid \<Rightarrow> pixel list \<Rightarrow> bbox \<Rightarrow> bool"
where
  "fill_inv h w msk cur L0 p0 labels stack b \<longleftrightarrow>
     (\<forall>p. pix labels p = pix L0 p \<or>
          pix labels p = int cur \<and> pix L0 p = - 1 \<and> p \<in> component h w msk p0) \<and>
     distinct stack \<and> (\<forall>p\<in>set stack. pix labels p = int cur) \<and>
     pix labels p0 = int cur \<and>
     (\<forall>p q. pix labels p = int cur \<and> p \<notin> set stack \<and> q \<in> set (neighbours p) \<and> fg h w msk q
        \<longrightarrow> pix labels q = int cur) \<and>
     bbox_ok ({p. pix labels p = int cur} - set stack) p0 b"

text \<open>What a fill starts from: a foreground seed, unlabelled, a fresh label, and the
  unlabelled foreground closed under steps.\<close>

definition fill_pre :: "nat \<Rightarrow> nat \<Rightarrow> 8 word grid \<Rightarrow> nat \<Rightarrow> int grid \<Rightarrow> pixel \<Rightarrow> bool" where
  "fill_pre h w msk cur L0 p0 \<longleftrightarrow>
     fg h w msk p0 \<and> pix L0 p0 = - 1 \<and> (\<forall>p. pix L0 p \<noteq> int cur) \<and>
     (\<forall>p q. (p, q) \<in> fg_step h w msk \<and> pix L0 p = - 1 \<longrightarrow> pix L0 q = - 1)"

text \<open>
  Row-major order on pixels, a statistics row that is exact for a set of pixels, and the
  invariant of the scan when \<open>pos\<close> is the next pixel to be looked at: \<open>current\<close> counts
  the rows; labels are \<open>-1\<close> or below \<open>current\<close>, and then on foreground pixels; adjacent
  foreground pixels have equal labels; every foreground pixel before \<open>pos\<close> is labelled;
  the pixels of every label \<open>i\<close> form the component of a pixel before \<open>pos\<close>, with an exact
  statistics row; and for \<open>i < j\<close> some pixel labelled \<open>i\<close> precedes all pixels labelled \<open>j\<close>.
\<close>

definition before :: "pixel \<Rightarrow> pixel \<Rightarrow> bool" where
  "before p q \<longleftrightarrow> snd p < snd q \<or> snd p = snd q \<and> fst p < fst q"

definition stat_ok :: "stat \<Rightarrow> pixel set \<Rightarrow> bool" where
  "stat_ok st S \<longleftrightarrow>
     (case st of (x, y, bw, bh, a) \<Rightarrow>
        a = int (card S) \<and>
        (\<forall>p\<in>S. x \<le> fst p \<and> fst p < x + bw \<and> y \<le> snd p \<and> snd p < y + bh) \<and>
        (\<exists>p\<in>S. fst p = x) \<and> (\<exists>p\<in>S. fst p = x + bw - 1) \<and>
        (\<exists>p\<in>S. snd p = y) \<and> (\<exists>p\<in>S. snd p = y + bh - 1))"

definition cc_inv ::
  "nat \<Rightarrow> nat \<Rightarrow> 8 word grid \<Rightarrow> pixel \<Rightarrow> int grid \<Rightarrow> stat list \<Rightarrow> nat \<Rightarrow> bool"
where
  "cc_inv h w msk pos labels stats current \<longleftrightarrow>
     current = length stats \<and>
     (\<forall>p. pix labels p = - 1 \<or> 0 \<le> pix labels p \<and> pix labels p < int current \<and> fg h w msk p) \<and>
     (\<forall>p q. (p, q) \<in> fg_step h w msk \<longrightarrow> pix labels p = pix labels q) \<and>
     (\<forall>p. fg h w msk p \<and> before p pos \<longrightarrow> pix labels p \<noteq> - 1) \<and>
     (\<forall>i<current. \<exists>s. fg h w msk s \<and> before s pos \<and>
          {p. pix labels p = int i} = component h w msk s \<and>
          stat_ok (stats ! i) (component h w msk s)) \<and>
     (\<forall>i j. i < j \<and> j < current \<longrightarrow>
          (\<exists>a. pix labels a = int i \<and> (\<forall>b. pix labels b = int j \<longrightarrow> before a b)))"

definition cc_inv_st ::
  "nat \<Rightarrow> nat \<Rightarrow> 8 word grid \<Rightarrow> pixel \<Rightarrow> int grid \<times> stat list \<times> nat \<Rightarrow> bool" where
  "cc_inv_st h w msk pos st =
     (case st of (labels, stats, current) \<Rightarrow> cc_inv h w msk pos labels stats current)"

subsection \<open>Boundary flood fill\<close>

text \<open>
  Two non-wall pixels of the grid are one step apart when they are 4-adjacent. A pixel is
  on the border when it lies in the first or last row or column; \<open>from_border\<close> holds of
  the pixels that a chain of steps connects to a non-wall border pixel. \<open>border_list\<close> is
  the list of positions the two seeding loops try, and \<open>flood_inv\<close> the invariant of the
  \<open>while\<close> loop: marks are \<open>0\<close> or \<open>1\<close> and only on pixels connected to the border, the
  stack holds marked pixels, every non-wall border pixel is marked, and every free
  neighbour of a marked pixel that has left the stack is marked. \<open>border_blocked\<close>: every
  border pixel is a wall pixel.
\<close>

definition free_step :: "nat \<Rightarrow> nat \<Rightarrow> 8 word grid \<Rightarrow> (pixel \<times> pixel) set" where
  "free_step h w walls =
     {(p, q). free h w walls p \<and> free h w walls q \<and> q \<in> set (neighbours p)}"

definition on_border :: "nat \<Rightarrow> nat \<Rightarrow> pixel \<Rightarrow> bool" where
  "on_border h w p \<longleftrightarrow>
     inb h w p \<and> (fst p = 0 \<or> fst p = int w - 1 \<or> snd p = 0 \<or> snd p = int h - 1)"

definition from_border :: "nat \<Rightarrow> nat \<Rightarrow> 8 word grid \<Rightarrow> pixel \<Rightarrow> bool" where
  "from_border h w walls p \<longleftrightarrow>
     (\<exists>q. on_border h w q \<and> pix walls q = 0 \<and> (q, p) \<in> (free_step h w walls)\<^sup>*)"

definition border_list :: "nat \<Rightarrow> nat \<Rightarrow> pixel list" where
  "border_list h w =
     concat (map (\<lambda>x. [(x, 0), (x, int h - 1)]) (map int [0..<w])) @
     concat (map (\<lambda>y. [(0, y), (int w - 1, y)]) (map int [0..<h]))"

definition flood_inv :: "nat \<Rightarrow> nat \<Rightarrow> 8 word grid \<Rightarrow> 8 word grid \<Rightarrow> pixel list \<Rightarrow> bool" where
  "flood_inv h w walls outside stack \<longleftrightarrow>
     (\<forall>p. pix outside p = 0 \<or> pix outside p = 1 \<and> from_border h w walls p) \<and>
     (\<forall>p\<in>set stack. pix outside p = 1) \<and>
     (\<forall>q. on_border h w q \<and> pix walls q = 0 \<longrightarrow> pix outside q = 1) \<and>
     (\<forall>p q. pix outside p = 1 \<and> p \<notin> set stack \<and> q \<in> set (neighbours p) \<and> free h w walls q
        \<longrightarrow> pix outside q = 1)"

definition border_blocked :: "nat \<Rightarrow> nat \<Rightarrow> 8 word grid \<Rightarrow> bool" where
  "border_blocked h w walls \<longleftrightarrow> (\<forall>q. on_border h w q \<longrightarrow> pix walls q \<noteq> 0)"

section \<open>Example inputs\<close>


definition ring3 :: "8 word grid" where
  "ring3 = (\<lambda>y x. if x = 1 \<and> y = 1 then 0 else 1)"

definition ring5 :: "8 word grid" where
  "ring5 = (\<lambda>y x. if (y = 1 \<or> y = 3) \<and> 1 \<le> x \<and> x \<le> 3 \<or> (x = 1 \<or> x = 3) \<and> 1 \<le> y \<and> y \<le> 3
                   then 1 else 0)"

definition two_blobs :: "8 word grid" where
  "two_blobs = (\<lambda>y x. if x = 0 \<and> y = 0 \<or> x = 2 \<and> (y = 1 \<or> y = 2) then 1 else 0)"

section \<open>Otsu threshold: proofs\<close>

lemma histogram_Cons:
  "histogram (v # gray) i = histogram gray i + (if unat v = i then 1 else 0)"
  by (simp add: histogram_def)

lemma histogram_sum_le: "(\<Sum>i<k. histogram gray i) \<le> length gray"
proof (induction gray)
  case Nil
  then show ?case by (simp add: histogram_def)
next
  case (Cons v gray)
  have "(\<Sum>i<k. if unat v = i then 1 else 0) \<le> (1::nat)"
    by (simp add: sum.delta)
  then show ?case using Cons by (simp add: histogram_Cons sum.distrib)
qed

lemma histogram_sum_256: "(\<Sum>i<256. histogram gray i) = length gray"
proof (induction gray)
  case Nil
  then show ?case by (simp add: histogram_def)
next
  case (Cons v gray)
  have v: "unat v < 256" using unsigned_less [of v] by simp
  have "(\<Sum>i<256. if unat v = i then 1 else 0) = (1::nat)"
    using v by (simp add: sum.delta)
  then show ?case using Cons by (simp add: histogram_Cons sum.distrib)
qed

lemma cum_w_lessThan: "cum_w gray t = (\<Sum>i<Suc t. histogram gray i)"
  by (simp add: cum_w_def lessThan_Suc_atMost)

lemma cum_s_lessThan: "cum_s gray t = (\<Sum>i<Suc t. i * histogram gray i)"
  by (simp add: cum_s_def lessThan_Suc_atMost)

lemma cum_w_le: "cum_w gray t \<le> length gray"
  unfolding cum_w_lessThan by (rule histogram_sum_le)

lemma cum_w_mono: "t \<le> u \<Longrightarrow> cum_w gray t \<le> cum_w gray u"
  unfolding cum_w_def by (rule sum_mono2) auto

lemma cum_s_mono: "t \<le> u \<Longrightarrow> cum_s gray t \<le> cum_s gray u"
  unfolding cum_s_def by (rule sum_mono2) auto

lemma cum_s_bound: "t \<le> 255 \<Longrightarrow> cum_s gray t \<le> 255 * length gray"
proof -
  assume t: "t \<le> 255"
  have "cum_s gray t \<le> (\<Sum>i\<le>t. 255 * histogram gray i)"
    unfolding cum_s_def using t by (intro sum_mono mult_le_mono1) auto
  also have "\<dots> = 255 * cum_w gray t"
    by (simp add: cum_w_def sum_distrib_left)
  also have "\<dots> \<le> 255 * length gray"
    using cum_w_le [of gray t] by simp
  finally show ?thesis .
qed

lemma sum_total_eq: "sum_list (map (\<lambda>t. t * histogram gray t) [0..<256]) = cum_s gray 255"
  by (simp add: cum_s_lessThan sum_list_sum_nth atLeast0LessThan del: upt_Suc)

lemma between_var_nonneg:
  assumes "float_rounding N rnd"
  shows "0 \<le> between_var rnd gray t"
proof -
  have nn: "\<And>x. 0 \<le> x \<Longrightarrow> 0 \<le> rnd x"
    using assms by (simp add: float_rounding_def)
  have "0 \<le> real (cum_w gray t) * (real (length gray) - real (cum_w gray t))"
    using cum_w_le [of gray t] by simp
  then have a: "0 \<le> rnd (real (cum_w gray t) * (real (length gray) - real (cum_w gray t)))"
    by (rule nn)
  have b: "0 \<le> rnd (x\<^sup>2)" for x
    by (rule nn) simp
  show ?thesis
    unfolding between_var_def Let_def by (rule nn, rule mult_nonneg_nonneg, rule a, rule b)
qed

lemma otsu_best_extend:
  assumes none: "\<And>u. k \<le> u \<Longrightarrow> u < j \<Longrightarrow> \<not> candidate gray u" and kj: "k \<le> j"
    and best: "otsu_best rnd gray k mv t"
  shows "otsu_best rnd gray j mv t"
proof -
  have below: "u < k" if "u < j" "candidate gray u" for u
  proof (rule ccontr)
    assume "\<not> u < k"
    then have "k \<le> u" by simp
    then show False using none that by blast
  qed
  show ?thesis
  proof (cases "\<exists>u<k. candidate gray u")
    case True
    then have exj: "\<exists>u<j. candidate gray u"
      using kj by (meson less_le_trans)
    have all: "candidate gray t \<and> t < k \<and> mv = between_var rnd gray t \<and>
      (\<forall>u<k. candidate gray u \<longrightarrow>
          between_var rnd gray u \<le> mv \<and> (between_var rnd gray u = mv \<longrightarrow> t \<le> u))"
      using best unfolding otsu_best_def if_P [OF True] .
    have "candidate gray t \<and> t < j \<and> mv = between_var rnd gray t \<and>
      (\<forall>u<j. candidate gray u \<longrightarrow>
          between_var rnd gray u \<le> mv \<and> (between_var rnd gray u = mv \<longrightarrow> t \<le> u))"
      using all kj below by auto
    then show ?thesis
      unfolding otsu_best_def if_P [OF exj] .
  next
    case False
    then have nexj: "\<not> (\<exists>u<j. candidate gray u)"
      using below by blast
    have "mv = - 1 \<and> t = 0"
      using best unfolding otsu_best_def if_not_P [OF False] .
    then show ?thesis
      unfolding otsu_best_def if_not_P [OF nexj] .
  qed
qed

lemma otsu_best_skip:
  assumes "\<not> candidate gray k" "otsu_best rnd gray k mv t"
  shows "otsu_best rnd gray (Suc k) mv t"
proof (rule otsu_best_extend [OF _ _ assms(2)])
  show "k \<le> Suc k" by simp
  fix u assume "k \<le> u" "u < Suc k"
  then have "u = k" by simp
  then show "\<not> candidate gray u" using assms(1) by simp
qed

lemma otsu_best_break:
  assumes full: "cum_w gray k = length gray" and kj: "k \<le> j"
    and best: "otsu_best rnd gray k mv t"
  shows "otsu_best rnd gray j mv t"
proof (rule otsu_best_extend [OF _ kj best])
  fix u assume "k \<le> u"
  then show "\<not> candidate gray u"
    using cum_w_mono [of k u gray] cum_w_le [of gray u] full
    by (simp add: candidate_def)
qed

lemma otsu_best_SucI:
  assumes "candidate gray t" "t \<le> k"
    and "\<And>u. u < k \<Longrightarrow> candidate gray u \<Longrightarrow>
           between_var rnd gray u \<le> between_var rnd gray t \<and>
           (between_var rnd gray u = between_var rnd gray t \<longrightarrow> t \<le> u)"
    and "candidate gray k \<Longrightarrow> between_var rnd gray k \<le> between_var rnd gray t"
  shows "otsu_best rnd gray (Suc k) (between_var rnd gray t) t"
proof -
  have ex: "\<exists>u<Suc k. candidate gray u"
    using assms(1,2) by (intro exI [of _ t]) simp
  have "between_var rnd gray u \<le> between_var rnd gray t \<and>
        (between_var rnd gray u = between_var rnd gray t \<longrightarrow> t \<le> u)"
    if "u < Suc k" "candidate gray u" for u
  proof (cases "u < k")
    case True
    then show ?thesis using assms(3) that by blast
  next
    case False
    then have "u = k" using that by simp
    then show ?thesis using assms(2,4) that by simp
  qed
  then show ?thesis
    unfolding otsu_best_def using ex assms(1,2) by simp
qed

lemma otsu_bestD:
  assumes "otsu_best rnd gray k mv t" "u < k" "candidate gray u"
  shows "candidate gray t" "t < k" "mv = between_var rnd gray t"
    "between_var rnd gray u \<le> mv" "between_var rnd gray u = mv \<Longrightarrow> t \<le> u"
proof -
  have ex: "\<exists>u<k. candidate gray u" using assms(2,3) by blast
  have all: "candidate gray t \<and> t < k \<and> mv = between_var rnd gray t \<and>
      (\<forall>u<k. candidate gray u \<longrightarrow>
          between_var rnd gray u \<le> mv \<and> (between_var rnd gray u = mv \<longrightarrow> t \<le> u))"
    using assms(1) unfolding otsu_best_def if_P [OF ex] .
  show "candidate gray t" using all by (rule conjunct1)
  show "t < k" using all by simp
  show "mv = between_var rnd gray t" using all by simp
  have "between_var rnd gray u \<le> mv \<and> (between_var rnd gray u = mv \<longrightarrow> t \<le> u)"
    using all assms(2,3) by blast
  then show "between_var rnd gray u \<le> mv" "between_var rnd gray u = mv \<Longrightarrow> t \<le> u"
    by simp_all
qed

lemma otsu_best_update:
  assumes c: "candidate gray k" and b: "otsu_best rnd gray k mv t"
    and lt: "mv < between_var rnd gray k"
  shows "otsu_best rnd gray (Suc k) (between_var rnd gray k) k"
proof (rule otsu_best_SucI)
  show "candidate gray k" by (rule c)
  show "k \<le> k" by simp
  show "between_var rnd gray k \<le> between_var rnd gray k" by simp
next
  fix u assume u: "u < k" "candidate gray u"
  have "between_var rnd gray u \<le> mv" by (rule otsu_bestD(4) [OF b u])
  then show "between_var rnd gray u \<le> between_var rnd gray k \<and>
        (between_var rnd gray u = between_var rnd gray k \<longrightarrow> k \<le> u)"
    using lt by simp
qed

lemma otsu_best_keep:
  assumes rnd: "float_rounding N rnd"
    and c: "candidate gray k" and b: "otsu_best rnd gray k mv t"
    and nlt: "\<not> mv < between_var rnd gray k"
  shows "otsu_best rnd gray (Suc k) mv t"
proof -
  have "mv \<noteq> - 1"
    using between_var_nonneg [OF rnd, of gray k] nlt by auto
  then have ex: "\<exists>u<k. candidate gray u"
    using b unfolding otsu_best_def by (auto split: if_splits)
  then obtain u0 where u0: "u0 < k" "candidate gray u0" by blast
  note d = otsu_bestD [OF b u0]
  have "otsu_best rnd gray (Suc k) (between_var rnd gray t) t"
  proof (rule otsu_best_SucI)
    show "candidate gray t" by (rule d(1))
    show "t \<le> k" using d(2) by simp
    show "between_var rnd gray k \<le> between_var rnd gray t"
      using nlt d(3) by simp
  next
    fix u assume u: "u < k" "candidate gray u"
    show "between_var rnd gray u \<le> between_var rnd gray t \<and>
        (between_var rnd gray u = between_var rnd gray t \<longrightarrow> t \<le> u)"
      using otsu_bestD(4,5) [OF b u] d(3) by simp
  qed
  then show ?thesis using d(3) by simp
qed

lemma otsu_loop_best:
  assumes rnd: "float_rounding (255 * length gray) rnd"
  shows "k \<le> 256 \<Longrightarrow> w_b s = real (\<Sum>i<k. histogram gray i) \<Longrightarrow>
     sum_b s = real (\<Sum>i<k. i * histogram gray i) \<Longrightarrow>
     otsu_best rnd gray k (max_var s) (threshold s) \<Longrightarrow>
     \<exists>s'. otsu_loop rnd (histogram gray) (length gray) (cum_s gray 255) [k..<256] s = Inr s' \<and>
          otsu_best rnd gray 256 (max_var s') (threshold s')"
proof (induction "256 - k" arbitrary: k s)
  case 0
  then have "k = 256" by simp
  then show ?case using "0.prems" by simp
next
  case (Suc n)
  from Suc.hyps(2) have k: "k < 256" and n: "n = 256 - Suc k" by simp_all
  have exact: "rnd (real m) = real m" if "m \<le> 255 * length gray" for m
    using rnd that by (simp add: float_rounding_def)
  have upt: "[k..<256] = k # [Suc k..<256]"
    using k by (simp add: upt_conv_Cons)
  have wle: "cum_w gray k \<le> 255 * length gray"
    using cum_w_le [of gray k] by simp
  have wb: "rnd (w_b s + real (histogram gray k)) = real (cum_w gray k)"
  proof -
    have "w_b s + real (histogram gray k) = real (cum_w gray k)"
      using Suc.prems(2) by (simp add: cum_w_lessThan)
    then show ?thesis using exact [OF wle] by simp
  qed
  have sb: "rnd (sum_b s + real (k * histogram gray k)) = real (cum_s gray k)"
  proof -
    have "sum_b s + real (k * histogram gray k) = real (cum_s gray k)"
      using Suc.prems(3) by (simp add: cum_s_lessThan)
    moreover have "cum_s gray k \<le> 255 * length gray"
      using k by (intro cum_s_bound) simp
    ultimately show ?thesis using exact by simp
  qed
  have wf: "rnd (real (length gray) - real (cum_w gray k)) = real (length gray - cum_w gray k)"
    using exact [of "length gray - cum_w gray k"] cum_w_le [of gray k]
    by (simp add: of_nat_diff)
  have sf: "rnd (real (cum_s gray 255) - real (cum_s gray k)) =
            real (cum_s gray 255) - real (cum_s gray k)"
  proof -
    have "cum_s gray k \<le> cum_s gray 255"
      using k by (intro cum_s_mono) simp
    moreover have "cum_s gray 255 - cum_s gray k \<le> 255 * length gray"
      using cum_s_bound [of 255 gray] by simp
    ultimately show ?thesis
      using exact [of "cum_s gray 255 - cum_s gray k"] by (simp add: of_nat_diff)
  qed
  show ?case
  proof (cases "cum_w gray k = 0")
    case True
    let ?s1 = "s\<lparr>w_b := real (cum_w gray k)\<rparr>"
    have hk: "histogram gray k = 0"
      using True by (simp add: cum_w_lessThan)
    have nc: "\<not> candidate gray k"
      using True by (simp add: candidate_def)
    have step: "otsu_loop rnd (histogram gray) (length gray) (cum_s gray 255) [k..<256] s =
                otsu_loop rnd (histogram gray) (length gray) (cum_s gray 255) [Suc k..<256] ?s1"
      unfolding upt otsu_loop.simps wb using True by (simp add: Let_def)
    have "\<exists>s'. otsu_loop rnd (histogram gray) (length gray) (cum_s gray 255) [Suc k..<256] ?s1 = Inr s' \<and>
          otsu_best rnd gray 256 (max_var s') (threshold s')"
    proof (rule Suc.hyps(1) [OF n])
      show "Suc k \<le> 256" using k by simp
      show "w_b ?s1 = real (\<Sum>i<Suc k. histogram gray i)"
        by (simp add: cum_w_lessThan)
      show "sum_b ?s1 = real (\<Sum>i<Suc k. i * histogram gray i)"
        using Suc.prems(3) hk by simp
      show "otsu_best rnd gray (Suc k) (max_var ?s1) (threshold ?s1)"
        using otsu_best_skip [OF nc Suc.prems(4)] by simp
    qed
    then show ?thesis using step by simp
  next
    case nz: False
    show ?thesis
    proof (cases "cum_w gray k = length gray")
      case True
      let ?s1 = "s\<lparr>w_b := real (cum_w gray k)\<rparr>"
      have step: "otsu_loop rnd (histogram gray) (length gray) (cum_s gray 255) [k..<256] s = Inr ?s1"
        unfolding upt otsu_loop.simps wb using nz True wf by (simp add: Let_def)
      have "otsu_best rnd gray 256 (max_var ?s1) (threshold ?s1)"
        using otsu_best_break [OF True Suc.prems(1) Suc.prems(4)] by simp
      then show ?thesis using step by blast
    next
      case False
      have lt: "cum_w gray k < length gray"
        using False cum_w_le [of gray k] by simp
      have c: "candidate gray k"
        using k nz lt by (simp add: candidate_def)
      have wfr: "real (length gray - cum_w gray k) = real (length gray) - real (cum_w gray k)"
        using lt by (simp add: of_nat_diff)
      define v where "v = between_var rnd gray k"
      let ?s2 = "s\<lparr>w_b := real (cum_w gray k), sum_b := real (cum_s gray k)\<rparr>"
      let ?s3 = "s\<lparr>w_b := real (cum_w gray k), sum_b := real (cum_s gray k),
                    max_var := v, threshold := k\<rparr>"
      have step: "otsu_loop rnd (histogram gray) (length gray) (cum_s gray 255) [k..<256] s =
          otsu_loop rnd (histogram gray) (length gray) (cum_s gray 255) [Suc k..<256]
             (if max_var s < v then ?s3 else ?s2)"
        unfolding upt otsu_loop.simps wb Let_def wf sb fdiv_def sf v_def between_var_def
        using nz lt by (simp add: wfr)
      have "\<exists>s'. otsu_loop rnd (histogram gray) (length gray) (cum_s gray 255) [Suc k..<256]
                   (if max_var s < v then ?s3 else ?s2) = Inr s' \<and>
          otsu_best rnd gray 256 (max_var s') (threshold s')"
      proof (rule Suc.hyps(1) [OF n])
        show "Suc k \<le> 256" using k by simp
        show "w_b (if max_var s < v then ?s3 else ?s2) = real (\<Sum>i<Suc k. histogram gray i)"
          by (simp add: cum_w_lessThan)
        show "sum_b (if max_var s < v then ?s3 else ?s2) = real (\<Sum>i<Suc k. i * histogram gray i)"
          by (simp add: cum_s_lessThan)
        show "otsu_best rnd gray (Suc k) (max_var (if max_var s < v then ?s3 else ?s2))
                (threshold (if max_var s < v then ?s3 else ?s2))"
        proof (cases "max_var s < v")
          case True
          then show ?thesis
            using otsu_best_update [OF c Suc.prems(4)] by (simp add: v_def)
        next
          case False
          then show ?thesis
            using otsu_best_keep [OF rnd c Suc.prems(4)] by (simp add: v_def)
        qed
      qed
      then show ?thesis using step by simp
    qed
  qed
qed

lemma otsu_run_best:
  assumes rnd: "float_rounding (255 * length gray) rnd"
  shows "\<exists>s. otsu_run rnd gray = Inr s \<and> otsu_best rnd gray 256 (max_var s) (threshold s)"
proof -
  let ?s0 = "\<lparr>sum_b = 0, w_b = 0, max_var = - 1, threshold = 0\<rparr>"
  have "otsu_best rnd gray 0 (max_var ?s0) (threshold ?s0)"
    by (simp add: otsu_best_def)
  then have "\<exists>s'. otsu_loop rnd (histogram gray) (length gray) (cum_s gray 255) [0..<256] ?s0 = Inr s' \<and>
          otsu_best rnd gray 256 (max_var s') (threshold s')"
    by (intro otsu_loop_best [OF rnd]) simp_all
  then show ?thesis
    unfolding otsu_run_def Let_def sum_total_eq .
qed

lemma cum_w_filter: "cum_w gray t = length (filter (\<lambda>v. unat v \<le> t) gray)"
proof (induction gray)
  case Nil
  then show ?case by (simp add: cum_w_def histogram_def)
next
  case (Cons v gray)
  have "(\<Sum>i\<le>t. if unat v = i then 1 else 0) = (if unat v \<le> t then 1 else (0::nat))"
    by (simp add: sum.delta)
  then show ?case
    using Cons by (simp add: cum_w_def histogram_Cons sum.distrib)
qed

lemma constant_no_candidate:
  assumes "\<forall>v\<in>set gray. v = c"
  shows "\<not> candidate gray t"
proof (cases "unat c \<le> t")
  case True
  then have "filter (\<lambda>v. unat v \<le> t) gray = gray"
    using assms by (auto simp: filter_id_conv)
  then show ?thesis by (simp add: candidate_def cum_w_filter)
next
  case False
  then have "filter (\<lambda>v. unat v \<le> t) gray = []"
    using assms by (auto simp: filter_empty_conv)
  then show ?thesis by (simp add: candidate_def cum_w_filter)
qed



subsection \<open>The lowest maximiser, for any rounding\<close>


subsection \<open>The binary64 rounding\<close>
















subsection \<open>The run on the pixels \<open>0, 1, 1, 2\<close>\<close>




















section \<open>Connected components: proofs\<close>

lemma neighbours_sym: "q \<in> set (neighbours p) \<longleftrightarrow> p \<in> set (neighbours q)"
  by (cases p; cases q) (auto simp: neighbours_def dirs_def)

lemma sym_fg_step: "sym (fg_step h w msk)"
  unfolding sym_def fg_step_def using neighbours_sym by blast

lemma fg_step_rtrancl_sym:
  "(p, q) \<in> (fg_step h w msk)\<^sup>* \<Longrightarrow> (q, p) \<in> (fg_step h w msk)\<^sup>*"
  using sym_rtrancl [OF sym_fg_step] by (meson symD)

lemma component_self: "p \<in> component h w msk p"
  by (simp add: component_def)

lemma component_fg: "fg h w msk p \<Longrightarrow> q \<in> component h w msk p \<Longrightarrow> fg h w msk q"
  unfolding component_def mem_Collect_eq
  by (erule rtranclE) (simp_all add: fg_step_def)

lemma component_step:
  "q \<in> component h w msk p \<Longrightarrow> (q, r) \<in> fg_step h w msk \<Longrightarrow> r \<in> component h w msk p"
  unfolding component_def by (simp add: rtrancl.rtrancl_into_rtrancl)

lemma component_eq:
  assumes "q \<in> component h w msk p"
  shows "component h w msk q = component h w msk p"
proof -
  have pq: "(p, q) \<in> (fg_step h w msk)\<^sup>*" using assms by (simp add: component_def)
  have qp: "(q, p) \<in> (fg_step h w msk)\<^sup>*" by (rule fg_step_rtrancl_sym [OF pq])
  show ?thesis
    unfolding component_def using pq qp by (auto intro: rtrancl_trans)
qed

lemma finite_component: "fg h w msk p \<Longrightarrow> finite (component h w msk p)"
  by (rule finite_subset [OF _ finite_fg [of h w msk]]) (auto dest: component_fg)

lemma fill_preD:
  assumes "fill_pre h w msk cur L0 p0"
  shows "fg h w msk p0" and "pix L0 p0 = - 1" and "pix L0 p \<noteq> int cur"
    and "(p, q) \<in> fg_step h w msk \<Longrightarrow> pix L0 p = - 1 \<Longrightarrow> pix L0 q = - 1"
  using assms unfolding fill_pre_def by blast+

lemma fill_pre_component:
  assumes "fill_pre h w msk cur L0 p0" "q \<in> component h w msk p0"
  shows "pix L0 q = - 1"
proof -
  have "(p0, q) \<in> (fg_step h w msk)\<^sup>*" using assms(2) by (simp add: component_def)
  then show ?thesis
  proof (induction rule: rtrancl_induct)
    case base
    then show ?case by (rule fill_preD(2) [OF assms(1)])
  next
    case (step y z)
    then show ?case using fill_preD(4) [OF assms(1)] by blast
  qed
qed

lemma fill_invD:
  assumes "fill_inv h w msk cur L0 p0 labels stack b"
  shows "pix labels p = pix L0 p \<or>
          pix labels p = int cur \<and> pix L0 p = - 1 \<and> p \<in> component h w msk p0"
    and "distinct stack"
    and "p \<in> set stack \<Longrightarrow> pix labels p = int cur"
    and "pix labels p0 = int cur"
    and "pix labels p = int cur \<Longrightarrow> p \<notin> set stack \<Longrightarrow> q \<in> set (neighbours p) \<Longrightarrow>
         fg h w msk q \<Longrightarrow> pix labels q = int cur"
    and "bbox_ok ({p. pix labels p = int cur} - set stack) p0 b"
  using assms unfolding fill_inv_def by blast+

lemma fill_inv_current:
  assumes pre: "fill_pre h w msk cur L0 p0" and inv: "fill_inv h w msk cur L0 p0 labels stack b"
    and "pix labels p = int cur"
  shows "p \<in> component h w msk p0" "pix L0 p = - 1" "fg h w msk p"
proof -
  have "pix L0 p \<noteq> int cur" by (rule fill_preD(3) [OF pre])
  then show c: "p \<in> component h w msk p0" and "pix L0 p = - 1"
    using fill_invD(1) [OF inv, of p] assms(3) by auto
  show "fg h w msk p"
    by (rule component_fg [OF fill_preD(1) [OF pre] c])
qed

lemma bbox_ok_insert:
  assumes ok: "bbox_ok D p0 b" and fin: "finite D" and c: "c \<notin> D"
  shows "bbox_ok (insert c D) p0
           \<lparr>area = area b + 1,
            min_x = min (min_x b) (fst c), max_x = max (max_x b) (fst c),
            min_y = min (min_y b) (snd c), max_y = max (max_y b) (snd c)\<rparr>"
proof -
  have a: "area b = int (card D)"
    and bd: "\<And>p. p \<in> D \<Longrightarrow>
        min_x b \<le> fst p \<and> fst p \<le> max_x b \<and> min_y b \<le> snd p \<and> snd p \<le> max_y b"
    and e1: "\<exists>p\<in>insert p0 D. fst p = min_x b" and e2: "\<exists>p\<in>insert p0 D. fst p = max_x b"
    and e3: "\<exists>p\<in>insert p0 D. snd p = min_y b" and e4: "\<exists>p\<in>insert p0 D. snd p = max_y b"
    using ok unfolding bbox_ok_def by blast+
  have A: "area b + 1 = int (card (insert c D))"
    using a fin c by simp
  have B: "min (min_x b) (fst c) \<le> fst p \<and> fst p \<le> max (max_x b) (fst c) \<and>
           min (min_y b) (snd c) \<le> snd p \<and> snd p \<le> max (max_y b) (snd c)"
    if "p \<in> insert c D" for p
    using that bd [of p] by auto
  have E1: "\<exists>p\<in>insert p0 (insert c D). fst p = min (min_x b) (fst c)"
  proof (cases "min_x b \<le> fst c")
    case True
    then show ?thesis using e1 by (auto simp: min_def)
  next
    case False
    then show ?thesis by (auto simp: min_def)
  qed
  have E2: "\<exists>p\<in>insert p0 (insert c D). fst p = max (max_x b) (fst c)"
  proof (cases "fst c \<le> max_x b")
    case True
    then show ?thesis using e2 by (auto simp: max_def)
  next
    case False
    then show ?thesis by (auto simp: max_def)
  qed
  have E3: "\<exists>p\<in>insert p0 (insert c D). snd p = min (min_y b) (snd c)"
  proof (cases "min_y b \<le> snd c")
    case True
    then show ?thesis using e3 by (auto simp: min_def)
  next
    case False
    then show ?thesis by (auto simp: min_def)
  qed
  have E4: "\<exists>p\<in>insert p0 (insert c D). snd p = max (max_y b) (snd c)"
  proof (cases "snd c \<le> max_y b")
    case True
    then show ?thesis using e4 by (auto simp: max_def)
  next
    case False
    then show ?thesis by (auto simp: max_def)
  qed
  show ?thesis
    unfolding bbox_ok_def using A B E1 E2 E3 E4 by simp
qed

lemma fill_inv_step:
  assumes pre: "fill_pre h w msk cur L0 p0"
    and inv: "fill_inv h w msk cur L0 p0 labels (c # stack) b"
  shows "fill_inv h w msk cur L0 p0
           (fst (visit_list h w msk cur (labels, stack) (neighbours c)))
           (snd (visit_list h w msk cur (labels, stack) (neighbours c)))
           \<lparr>area = area b + 1,
            min_x = min (min_x b) (fst c), max_x = max (max_x b) (fst c),
            min_y = min (min_y b) (snd c), max_y = max (max_y b) (snd c)\<rparr>"
proof -
  obtain new where new: "visit_list h w msk cur (labels, stack) (neighbours c) =
      ((\<lambda>y x. if (x, y) \<in> set new then int cur else labels y x), new @ stack)"
    "set new = {p \<in> set (neighbours c). fg h w msk p \<and> pix labels p = - 1}" "distinct new"
    using visit_list_effect by blast
  let ?l1 = "\<lambda>y x. if (x, y) \<in> set new then int cur else labels y x"
  let ?b1 = "\<lparr>area = area b + 1,
            min_x = min (min_x b) (fst c), max_x = max (max_x b) (fst c),
            min_y = min (min_y b) (snd c), max_y = max (max_y b) (snd c)\<rparr>"
  have l1: "pix ?l1 p = (if p \<in> set new then int cur else pix labels p)" for p
    by (cases p) (simp add: pix_def)
  note i1 = fill_invD(1) [OF inv] and i2 = fill_invD(2) [OF inv]
    and i3 = fill_invD(3) [OF inv] and i4 = fill_invD(4) [OF inv]
    and i5 = fill_invD(5) [OF inv] and i6 = fill_invD(6) [OF inv]
  have cc: "pix labels c = int cur" using i3 [of c] by simp
  note c = fill_inv_current [OF pre inv cc]
  have newD: "fg h w msk p" "pix labels p = - 1" "p \<in> set (neighbours c)" if "p \<in> set new" for p
    using that new(2) by simp_all
  have new_comp: "p \<in> component h w msk p0" if "p \<in> set new" for p
  proof (rule component_step [OF c(1)])
    show "(c, p) \<in> fg_step h w msk"
      using newD [OF that] c(3) by (simp add: fg_step_def)
  qed
  have j1: "pix ?l1 p = pix L0 p \<or>
          pix ?l1 p = int cur \<and> pix L0 p = - 1 \<and> p \<in> component h w msk p0" for p
  proof (cases "p \<in> set new")
    case True
    then have "pix L0 p = - 1"
      using fill_pre_component [OF pre new_comp] by simp
    then show ?thesis using True new_comp by (simp add: l1)
  next
    case False
    then show ?thesis using i1 [of p] by (simp add: l1)
  qed
  have disj: "p \<notin> set (c # stack)" if "p \<in> set new" for p
    using newD(2) [OF that] i3 [of p] by auto
  have j2: "distinct (new @ stack)"
    using new(3) i2 disj by auto
  have j3: "pix ?l1 p = int cur" if "p \<in> set (new @ stack)" for p
    using that i3 [of p] by (auto simp: l1)
  have j4: "pix ?l1 p0 = int cur"
    using i4 by (simp add: l1)
  have j5: "pix ?l1 q = int cur"
    if a: "pix ?l1 p = int cur" "p \<notin> set (new @ stack)" "q \<in> set (neighbours p)" "fg h w msk q"
    for p q
  proof (cases "p = c")
    case True
    have qc: "q \<in> component h w msk p0"
      by (rule component_step [OF c(1)]) (use a(3,4) c(3) True in \<open>simp add: fg_step_def\<close>)
    show ?thesis
    proof (cases "pix labels q = - 1")
      case True
      then have "q \<in> set new" using a(3,4) \<open>p = c\<close> new(2) by simp
      then show ?thesis by (simp add: l1)
    next
      case False
      have "pix L0 q = - 1" by (rule fill_pre_component [OF pre qc])
      then have "pix labels q = int cur" using i1 [of q] False by auto
      then show ?thesis by (simp add: l1)
    qed
  next
    case False
    have "pix labels p = int cur" using a(1,2) by (simp add: l1 split: if_splits)
    moreover have "p \<notin> set (c # stack)" using False a(2) by simp
    ultimately have "pix labels q = int cur" using i5 a(3,4) by blast
    then show ?thesis by (simp add: l1)
  qed
  let ?D = "{p. pix labels p = int cur} - set (c # stack)"
  have cur_new: "pix labels p \<noteq> int cur" if "p \<in> set new" for p
    using newD(2) [OF that] by simp
  have D1: "{p. pix ?l1 p = int cur} - set (new @ stack) = insert c ?D"
    using cc i2 cur_new by (auto simp: l1)
  have fin: "finite ?D"
  proof (rule finite_subset [OF _ finite_component [OF fill_preD(1) [OF pre]]])
    show "?D \<subseteq> component h w msk p0"
      using fill_inv_current(1) [OF pre inv] by blast
  qed
  have j6: "bbox_ok ({p. pix ?l1 p = int cur} - set (new @ stack)) p0 ?b1"
    unfolding D1 by (rule bbox_ok_insert [OF i6 fin]) simp
  show ?thesis
    unfolding new(1) fst_conv snd_conv fill_inv_def
    using j1 j2 j3 j4 j5 j6 by blast
qed

lemma fill_inv_final:
  assumes pre: "fill_pre h w msk cur L0 p0"
    and inv: "fill_inv h w msk cur L0 p0 labels [] b"
  shows "pix labels p = (if p \<in> component h w msk p0 then int cur else pix L0 p)"
    and "bbox_ok (component h w msk p0) p0 b"
proof -
  have sup: "pix labels q = int cur" if "q \<in> component h w msk p0" for q
  proof -
    have "(p0, q) \<in> (fg_step h w msk)\<^sup>*" using that by (simp add: component_def)
    then show ?thesis
    proof (induction rule: rtrancl_induct)
      case base
      then show ?case by (rule fill_invD(4) [OF inv])
    next
      case (step y z)
      then have z: "z \<in> set (neighbours y)" "fg h w msk z"
        by (simp_all add: fg_step_def)
      show ?case
        by (rule fill_invD(5) [OF inv step.IH _ z]) simp
    qed
  qed
  have eq: "{p. pix labels p = int cur} = component h w msk p0"
    using sup fill_inv_current(1) [OF pre inv] by blast
  show "pix labels p = (if p \<in> component h w msk p0 then int cur else pix L0 p)"
    using sup [of p] fill_invD(1) [OF inv, of p] by auto
  show "bbox_ok (component h w msk p0) p0 b"
    using fill_invD(6) [OF inv] by (simp add: eq)
qed

lemma fill_correct:
  "fill_inv h w msk cur L0 p0 labels stack b \<Longrightarrow> fill_pre h w msk cur L0 p0 \<Longrightarrow>
     pix (fst (fill h w msk cur labels stack b)) p =
       (if p \<in> component h w msk p0 then int cur else pix L0 p) \<and>
     bbox_ok (component h w msk p0) p0 (snd (fill h w msk cur labels stack b))"
proof (induction h w msk cur labels stack b rule: fill.induct)
  case (1 h w msk current labels b)
  show ?case
    using fill_inv_final [OF "1.prems"(2) "1.prems"(1)] by simp
next
  case (2 h w msk current labels cx cy stack b)
  let ?s = "visit_list h w msk current (labels, stack) (neighbours (cx, cy))"
  let ?b1 = "\<lparr>area = area b + 1,
            min_x = min (min_x b) cx, max_x = max (max_x b) cx,
            min_y = min (min_y b) cy, max_y = max (max_y b) cy\<rparr>"
  have "fill_inv h w msk current L0 p0 (fst ?s) (snd ?s) ?b1"
    using fill_inv_step [OF "2.prems"(2) "2.prems"(1)] by simp
  then have "pix (fst (fill h w msk current (fst ?s) (snd ?s) ?b1)) p =
       (if p \<in> component h w msk p0 then int current else pix L0 p) \<and>
     bbox_ok (component h w msk p0) p0 (snd (fill h w msk current (fst ?s) (snd ?s) ?b1))"
    using "2.IH" [of ?b1 ?s] "2.prems"(2) by (simp add: foldl_visit)
  then show ?case by (simp add: foldl_visit Let_def)
qed

lemma cc_invD:
  assumes "cc_inv h w msk pos labels stats current"
  shows "current = length stats"
    and "pix labels p = - 1 \<or> 0 \<le> pix labels p \<and> pix labels p < int current \<and> fg h w msk p"
    and "(p, q) \<in> fg_step h w msk \<Longrightarrow> pix labels p = pix labels q"
    and "fg h w msk p \<Longrightarrow> before p pos \<Longrightarrow> pix labels p \<noteq> - 1"
    and "i < current \<Longrightarrow> \<exists>s. fg h w msk s \<and> before s pos \<and>
          {p. pix labels p = int i} = component h w msk s \<and>
          stat_ok (stats ! i) (component h w msk s)"
    and "i < j \<Longrightarrow> j < current \<Longrightarrow>
          \<exists>a. pix labels a = int i \<and> (\<forall>b. pix labels b = int j \<longrightarrow> before a b)"
  using assms unfolding cc_inv_def by blast+

lemma before_trans: "before p q \<Longrightarrow> before q r \<Longrightarrow> before p r"
  by (auto simp: before_def)

lemma before_linear: "before p q \<or> p = q \<or> before q p"
  by (cases p; cases q) (auto simp: before_def)

lemma bbox_stat_ok:
  assumes "bbox_ok D p0 b" "p0 \<in> D"
  shows "stat_ok (min_x b, min_y b, max_x b - min_x b + 1, max_y b - min_y b + 1, area b) D"
proof -
  have D: "insert p0 D = D" using assms(2) by auto
  show ?thesis
    using assms(1) unfolding bbox_ok_def stat_ok_def D by auto
qed

lemma fill_inv_init:
  assumes pre: "fill_pre h w msk cur L0 (x, y)"
  shows "fill_inv h w msk cur L0 (x, y) (put L0 y x (int cur)) [(x, y)]
           \<lparr>area = 0, min_x = x, max_x = x, min_y = y, max_y = y\<rparr>"
proof -
  let ?l = "put L0 y x (int cur)"
  have l: "pix ?l p = (if p = (x, y) then int cur else pix L0 p)" for p
    by (rule pix_put)
  have only: "pix ?l p = int cur \<longleftrightarrow> p = (x, y)" for p
    using fill_preD(3) [OF pre, of p] by (simp add: l)
  have j1: "pix ?l p = pix L0 p \<or>
          pix ?l p = int cur \<and> pix L0 p = - 1 \<and> p \<in> component h w msk (x, y)" for p
    using fill_preD(2) [OF pre] component_self [of "(x, y)" h w msk] by (simp add: l)
  have j6: "bbox_ok ({p. pix ?l p = int cur} - set [(x, y)]) (x, y)
           \<lparr>area = 0, min_x = x, max_x = x, min_y = y, max_y = y\<rparr>"
    unfolding only by (simp add: bbox_ok_def)
  show ?thesis
    unfolding fill_inv_def using j1 j6 only by simp
qed

lemma fg_inb: "fg h w msk p \<Longrightarrow> inb h w p"
  by (simp add: fg_def)

lemma cc_inv_skip:
  assumes inv: "cc_inv h w msk (x, y) labels stats current"
    and nxt: "\<And>p. inb h w p \<Longrightarrow> before p pos' \<longleftrightarrow> before p (x, y) \<or> p = (x, y)"
    and skip: "msk y x = 0 \<or> labels y x \<noteq> - 1"
  shows "cc_inv h w msk pos' labels stats current"
proof -
  have j4: "pix labels p \<noteq> - 1" if "fg h w msk p" "before p pos'" for p
  proof (cases "p = (x, y)")
    case True
    then show ?thesis using that(1) skip by (simp add: fg_def pix_def)
  next
    case False
    then have "before p (x, y)" using nxt [OF fg_inb [OF that(1)]] that(2) by simp
    then show ?thesis by (rule cc_invD(4) [OF inv that(1)])
  qed
  have j5: "\<exists>s. fg h w msk s \<and> before s pos' \<and>
          {p. pix labels p = int i} = component h w msk s \<and>
          stat_ok (stats ! i) (component h w msk s)" if ic: "i < current" for i
  proof -
    obtain s where s: "fg h w msk s" "before s (x, y)"
      "{p. pix labels p = int i} = component h w msk s" "stat_ok (stats ! i) (component h w msk s)"
      using cc_invD(5) [OF inv ic] by blast
    have "before s pos'" using nxt [OF fg_inb [OF s(1)]] s(2) by simp
    then show ?thesis using s by blast
  qed
  show ?thesis
    unfolding cc_inv_def
    using cc_invD(1,2,3,6) [OF inv] j4 j5 by blast
qed

lemma cc_inv_fill:
  assumes inv: "cc_inv h w msk (x, y) labels stats current"
    and nxt: "\<And>p. inb h w p \<Longrightarrow> before p pos' \<longleftrightarrow> before p (x, y) \<or> p = (x, y)"
    and seed: "fg h w msk (x, y)" "pix labels (x, y) = - 1"
    and res: "\<And>p. pix labels' p = (if p \<in> component h w msk (x, y) then int current else pix labels p)"
    and st: "stat_ok st (component h w msk (x, y))"
  shows "cc_inv h w msk pos' labels' (stats @ [st]) (current + 1)"
proof -
  let ?C = "component h w msk (x, y)"
  note n = cc_invD(1) [OF inv]
  have old: "pix labels p = - 1" if "p \<in> ?C" for p
  proof -
    have "(x, y) \<in> component h w msk p"
      using that fg_step_rtrancl_sym by (simp add: component_def)
    then have "((x, y), p) \<in> (fg_step h w msk)\<^sup>*"
      using that by (simp add: component_def)
    then show ?thesis
    proof (induction rule: rtrancl_induct)
      case base
      then show ?case by (rule seed(2))
    next
      case (step a b)
      then show ?case using cc_invD(3) [OF inv step.hyps(2)] by simp
    qed
  qed
  have fresh: "pix labels p \<noteq> int current" for p
    using cc_invD(2) [OF inv, of p] by auto
  have cls: "{p. pix labels' p = int i} = {p. pix labels p = int i}" if "i < current" for i
    using that old by (auto simp: res)
  have cls_new: "{p. pix labels' p = int current} = ?C"
    using fresh by (auto simp: res)
  have j2: "pix labels' p = - 1 \<or>
      0 \<le> pix labels' p \<and> pix labels' p < int (current + 1) \<and> fg h w msk p" for p
  proof (cases "p \<in> ?C")
    case True
    then show ?thesis using component_fg [OF seed(1) True] by (simp add: res)
  next
    case False
    then show ?thesis using cc_invD(2) [OF inv, of p] by (auto simp: res)
  qed
  have j3: "pix labels' p = pix labels' q" if "(p, q) \<in> fg_step h w msk" for p q
  proof -
    have qp: "(q, p) \<in> fg_step h w msk"
      using that sym_fg_step by (meson symD)
    have "p \<in> ?C \<longleftrightarrow> q \<in> ?C"
      using component_step [OF _ that] component_step [OF _ qp] by blast
    then show ?thesis using cc_invD(3) [OF inv that] by (simp add: res)
  qed
  have j4: "pix labels' p \<noteq> - 1" if "fg h w msk p" "before p pos'" for p
  proof (cases "p \<in> ?C")
    case True
    then show ?thesis by (simp add: res)
  next
    case False
    then have "p \<noteq> (x, y)" using component_self [of "(x, y)" h w msk] by auto
    then have "before p (x, y)" using nxt [OF fg_inb [OF that(1)]] that(2) by simp
    then show ?thesis using cc_invD(4) [OF inv that(1)] False by (simp add: res)
  qed
  have j5: "\<exists>s. fg h w msk s \<and> before s pos' \<and>
          {p. pix labels' p = int i} = component h w msk s \<and>
          stat_ok ((stats @ [st]) ! i) (component h w msk s)" if "i < current + 1" for i
  proof (cases "i < current")
    case True
    obtain s where s: "fg h w msk s" "before s (x, y)"
      "{p. pix labels p = int i} = component h w msk s" "stat_ok (stats ! i) (component h w msk s)"
      using cc_invD(5) [OF inv True] by blast
    have "before s pos'" using nxt [OF fg_inb [OF s(1)]] s(2) by simp
    moreover have "(stats @ [st]) ! i = stats ! i"
      using True n by (simp add: nth_append)
    moreover have "{p. pix labels' p = int i} = component h w msk s"
      using s(3) cls [OF True] by simp
    ultimately show ?thesis using s(1,4) by (intro exI [of _ s]) simp
  next
    case False
    then have i: "i = current" using that by simp
    have "before (x, y) pos'" using nxt [OF fg_inb [OF seed(1)]] by simp
    moreover have "(stats @ [st]) ! i = st"
      using i n by (simp add: nth_append)
    ultimately show ?thesis using seed(1) cls_new st i by (intro exI [of _ "(x, y)"]) simp
  qed
  have j6: "\<exists>a. pix labels' a = int i \<and> (\<forall>b. pix labels' b = int j \<longrightarrow> before a b)"
    if ij: "i < j" and jc: "j < current + 1" for i j
  proof (cases "j < current")
    case True
    then have ic: "i < current" using ij by simp
    obtain a where a: "pix labels a = int i" "\<forall>b. pix labels b = int j \<longrightarrow> before a b"
      using cc_invD(6) [OF inv ij True] by blast
    have "pix labels' a = int i" using a(1) cls [OF ic] by blast
    moreover have "before a b" if "pix labels' b = int j" for b
      using a(2) cls [OF True] that by blast
    ultimately show ?thesis by blast
  next
    case False
    then have j: "j = current" using jc by simp
    then have ic: "i < current" using ij by simp
    obtain s where s: "fg h w msk s" "before s (x, y)"
      "{p. pix labels p = int i} = component h w msk s"
      using cc_invD(5) [OF inv ic] by blast
    have "pix labels s = int i" using s(3) component_self [of s h w msk] by blast
    then have sa: "pix labels' s = int i" using cls [OF ic] by blast
    have "before s b" if "pix labels' b = int j" for b
    proof -
      have bC: "b \<in> ?C" using that j cls_new by blast
      have "\<not> before b (x, y)"
        using cc_invD(4) [OF inv component_fg [OF seed(1) bC]] old [OF bC] by blast
      then have "b = (x, y) \<or> before (x, y) b" using before_linear [of b "(x, y)"] by blast
      then show ?thesis using s(2) before_trans by blast
    qed
    then show ?thesis using sa by blast
  qed
  have j1: "current + 1 = length (stats @ [st])" using n by simp
  show ?thesis
    unfolding cc_inv_def using j1 j2 j3 j4 j5 j6 by blast
qed

lemma scan_pixel_inv:
  assumes inv: "cc_inv_st h w msk (x, y) st" and ib: "inb h w (x, y)"
    and nxt: "\<And>p. inb h w p \<Longrightarrow> before p pos' \<longleftrightarrow> before p (x, y) \<or> p = (x, y)"
  shows "cc_inv_st h w msk pos' (scan_pixel h w msk st x y)"
proof -
  obtain labels stats current where st: "st = (labels, stats, current)"
    by (cases st)
  have inv': "cc_inv h w msk (x, y) labels stats current"
    using inv by (simp add: cc_inv_st_def st)
  show ?thesis
  proof (cases "msk y x = 0 \<or> labels y x \<noteq> - 1")
    case True
    have "cc_inv h w msk pos' labels stats current"
      by (rule cc_inv_skip [OF inv' nxt True])
    then show ?thesis using True by (simp add: cc_inv_st_def st scan_pixel_def)
  next
    case False
    then have seed: "fg h w msk (x, y)" "pix labels (x, y) = - 1"
      using ib by (simp_all add: fg_def pix_def)
    have fresh: "pix labels p \<noteq> int current" for p
      using cc_invD(2) [OF inv', of p] by auto
    have closed: "pix labels q = - 1" if "(p, q) \<in> fg_step h w msk" "pix labels p = - 1" for p q
      using cc_invD(3) [OF inv' that(1)] that(2) by simp
    have pre: "fill_pre h w msk current labels (x, y)"
      unfolding fill_pre_def using seed fresh closed by blast
    let ?r = "fill h w msk current (put labels y x (int current)) [(x, y)]
                 \<lparr>area = 0, min_x = x, max_x = x, min_y = y, max_y = y\<rparr>"
    let ?st = "(min_x (snd ?r), min_y (snd ?r), max_x (snd ?r) - min_x (snd ?r) + 1,
                max_y (snd ?r) - min_y (snd ?r) + 1, area (snd ?r))"
    note fc = fill_correct [OF fill_inv_init [OF pre] pre]
    have res: "pix (fst ?r) p =
        (if p \<in> component h w msk (x, y) then int current else pix labels p)" for p
      using fc [of p] by simp
    have "bbox_ok (component h w msk (x, y)) (x, y) (snd ?r)"
      using fc [of "(x, y)"] by simp
    then have so: "stat_ok ?st (component h w msk (x, y))"
      by (rule bbox_stat_ok) (rule component_self)
    have "cc_inv h w msk pos' (fst ?r) (stats @ [?st]) (current + 1)"
      by (rule cc_inv_fill [OF inv' nxt seed res so])
    then show ?thesis
      using False by (simp add: cc_inv_st_def st scan_pixel_def case_prod_unfold)
  qed
qed

lemma cc_inv_cong:
  assumes eq: "\<And>p. inb h w p \<Longrightarrow> before p pos = before p pos'"
    and inv: "cc_inv_st h w msk pos st"
  shows "cc_inv_st h w msk pos' st"
proof -
  obtain labels stats current where st: "st = (labels, stats, current)"
    by (cases st)
  have inv': "cc_inv h w msk pos labels stats current"
    using inv by (simp add: cc_inv_st_def st)
  have j4: "pix labels p \<noteq> - 1" if "fg h w msk p" "before p pos'" for p
    using cc_invD(4) [OF inv' that(1)] eq [OF fg_inb [OF that(1)]] that(2) by simp
  have j5: "\<exists>s. fg h w msk s \<and> before s pos' \<and>
          {p. pix labels p = int i} = component h w msk s \<and>
          stat_ok (stats ! i) (component h w msk s)" if ic: "i < current" for i
  proof -
    obtain s where s: "fg h w msk s" "before s pos"
      "{p. pix labels p = int i} = component h w msk s" "stat_ok (stats ! i) (component h w msk s)"
      using cc_invD(5) [OF inv' ic] by blast
    have "before s pos'" using eq [OF fg_inb [OF s(1)]] s(2) by simp
    then show ?thesis using s(1,3,4) by (intro exI [of _ s]) simp
  qed
  have "cc_inv h w msk pos' labels stats current"
    unfolding cc_inv_def
    using cc_invD(1,2,3,6) [OF inv'] j4 j5 by blast
  then show ?thesis by (simp add: cc_inv_st_def st)
qed

lemma scan_row_inv:
  assumes k: "k < h"
  shows "j \<le> w \<Longrightarrow> cc_inv_st h w msk (0, int k) st \<Longrightarrow>
     cc_inv_st h w msk (int j, int k)
       (foldl (\<lambda>st x. scan_pixel h w msk st x (int k)) st (map int [0..<j]))"
proof (induction j)
  case 0
  then show ?case by simp
next
  case (Suc j)
  let ?st = "foldl (\<lambda>st x. scan_pixel h w msk st x (int k)) st (map int [0..<j])"
  have inv: "cc_inv_st h w msk (int j, int k) ?st"
    using Suc by simp
  have ib: "inb h w (int j, int k)"
    using Suc.prems(1) k by (simp add: inb_def)
  have "cc_inv_st h w msk (int (Suc j), int k) (scan_pixel h w msk ?st (int j) (int k))"
  proof (rule scan_pixel_inv [OF inv ib])
    fix p :: pixel
    show "before p (int (Suc j), int k) \<longleftrightarrow> before p (int j, int k) \<or> p = (int j, int k)"
      by (cases p) (auto simp: before_def)
  qed
  then show ?case by simp
qed

lemma cc_inv_initial: "cc_inv_st h w msk (0, 0) (\<lambda>y x. - 1, [], 0)"
proof -
  have "\<not> before p (0, 0)" if "fg h w msk p" for p
    using that by (auto simp: fg_def inb_def before_def)
  then show ?thesis
    unfolding cc_inv_st_def cc_inv_def by (simp add: pix_def)
qed

lemma scan_rows_prefix_inv:
  "k \<le> h \<Longrightarrow>
   cc_inv_st h w msk (0, int k)
     (foldl (\<lambda>st y. foldl (\<lambda>st x. scan_pixel h w msk st x y) st (map int [0..<w]))
        (\<lambda>y x. - 1, [], 0) (map int [0..<k]))"
proof (induction k)
  case 0
  then show ?case by (simp add: cc_inv_initial)
next
  case (Suc k)
  let ?st = "foldl (\<lambda>st y. foldl (\<lambda>st x. scan_pixel h w msk st x y) st (map int [0..<w]))
        (\<lambda>y x. - 1, [], 0) (map int [0..<k])"
  have inv: "cc_inv_st h w msk (0, int k) ?st"
    using Suc by simp
  have k: "k < h" using Suc.prems by simp
  have row: "cc_inv_st h w msk (int w, int k)
       (foldl (\<lambda>st x. scan_pixel h w msk st x (int k)) ?st (map int [0..<w]))"
    by (rule scan_row_inv [OF k _ inv]) simp
  have "cc_inv_st h w msk (0, int (Suc k))
       (foldl (\<lambda>st x. scan_pixel h w msk st x (int k)) ?st (map int [0..<w]))"
  proof (rule cc_inv_cong [OF _ row])
    fix p :: pixel
    assume "inb h w p"
    then show "before p (int w, int k) = before p (0, int (Suc k))"
      by (cases p) (auto simp: before_def inb_def)
  qed
  then show ?case by simp
qed

lemma scan_rows_inv: "cc_inv_st h w msk (0, int h) (scan_rows h w msk)"
  unfolding scan_rows_def by (rule scan_rows_prefix_inv) simp

lemma cc_final:
  "cc_inv h w msk (0, int h) (fst (connected_components h w msk))
     (snd (connected_components h w msk)) (length (snd (connected_components h w msk)))"
proof -
  obtain labels stats current where st: "scan_rows h w msk = (labels, stats, current)"
    by (cases "scan_rows h w msk")
  have inv: "cc_inv h w msk (0, int h) labels stats current"
    using scan_rows_inv [of h w msk] by (simp add: cc_inv_st_def st)
  then show ?thesis
    using cc_invD(1) [OF inv] by (simp add: connected_components_def st)
qed

lemma before_end: "inb h w p \<Longrightarrow> before p (0, int h)"
  by (simp add: inb_def before_def)

lemma cc_background:
  "\<not> fg h w msk p \<Longrightarrow> pix (fst (connected_components h w msk)) p = - 1"
  using cc_invD(2) [OF cc_final, of h w msk p] by blast

lemma cc_foreground:
  assumes "fg h w msk p"
  shows "0 \<le> pix (fst (connected_components h w msk)) p"
    and "pix (fst (connected_components h w msk)) p < int (length (snd (connected_components h w msk)))"
proof -
  have "pix (fst (connected_components h w msk)) p \<noteq> - 1"
    by (rule cc_invD(4) [OF cc_final assms before_end [OF fg_inb [OF assms]]])
  then show "0 \<le> pix (fst (connected_components h w msk)) p"
    and "pix (fst (connected_components h w msk)) p < int (length (snd (connected_components h w msk)))"
    using cc_invD(2) [OF cc_final, of h w msk p] by blast+
qed

lemma cc_class:
  assumes "i < length (snd (connected_components h w msk))"
  shows "\<exists>s. fg h w msk s \<and>
     {p. pix (fst (connected_components h w msk)) p = int i} = component h w msk s \<and>
     stat_ok (snd (connected_components h w msk) ! i) (component h w msk s)"
  using cc_invD(5) [OF cc_final assms] by blast

lemma cc_order:
  assumes "i < j" "j < length (snd (connected_components h w msk))"
  shows "\<exists>a. pix (fst (connected_components h w msk)) a = int i \<and>
     (\<forall>b. pix (fst (connected_components h w msk)) b = int j \<longrightarrow> before a b)"
  by (rule cc_invD(6) [OF cc_final assms])

lemma cc_same_label:
  assumes p: "fg h w msk p" and q: "fg h w msk q"
  shows "pix (fst (connected_components h w msk)) p = pix (fst (connected_components h w msk)) q
     \<longleftrightarrow> (p, q) \<in> (fg_step h w msk)\<^sup>*"
proof
  let ?l = "fst (connected_components h w msk)"
  assume eq: "pix ?l p = pix ?l q"
  define i where "i = nat (pix ?l p)"
  have i: "pix ?l p = int i" "i < length (snd (connected_components h w msk))"
    using cc_foreground [OF p] by (simp_all add: i_def)
  obtain s where s: "{r. pix ?l r = int i} = component h w msk s"
    using cc_class [OF i(2)] by blast
  have "p \<in> component h w msk s" "q \<in> component h w msk s"
    using s i(1) eq by auto
  then have "(s, p) \<in> (fg_step h w msk)\<^sup>*" "(s, q) \<in> (fg_step h w msk)\<^sup>*"
    by (simp_all add: component_def)
  then show "(p, q) \<in> (fg_step h w msk)\<^sup>*"
    using fg_step_rtrancl_sym [of s p] by (meson rtrancl_trans)
next
  let ?l = "fst (connected_components h w msk)"
  assume "(p, q) \<in> (fg_step h w msk)\<^sup>*"
  then show "pix ?l p = pix ?l q"
  proof (induction rule: rtrancl_induct)
    case base
    then show ?case by simp
  next
    case (step y z)
    then show ?case using cc_invD(3) [OF cc_final step.hyps(2)] by simp
  qed
qed

lemma stat_ok_Min:
  assumes "stat_ok (x, y, bw, bh, a) S" "finite S"
  shows "a = int (card S)" "x = Min (fst ` S)" "y = Min (snd ` S)"
    "bw = Max (fst ` S) - Min (fst ` S) + 1" "bh = Max (snd ` S) - Min (snd ` S) + 1"
    "a \<le> bw * bh"
proof -
  have a: "a = int (card S)"
    and bd: "\<And>p. p \<in> S \<Longrightarrow> x \<le> fst p \<and> fst p < x + bw \<and> y \<le> snd p \<and> snd p < y + bh"
    and e1: "\<exists>p\<in>S. fst p = x" and e2: "\<exists>p\<in>S. fst p = x + bw - 1"
    and e3: "\<exists>p\<in>S. snd p = y" and e4: "\<exists>p\<in>S. snd p = y + bh - 1"
    using assms(1) unfolding stat_ok_def by auto
  show "a = int (card S)" by (rule a)
  have fx: "finite (fst ` S)" and fy: "finite (snd ` S)" using assms(2) by simp_all
  have mnx: "Min (fst ` S) = x"
    using e1 bd by (intro Min_eqI [OF fx]) auto
  have mxx: "Max (fst ` S) = x + bw - 1"
    using e2 bd by (intro Max_eqI [OF fx]) force+
  have mny: "Min (snd ` S) = y"
    using e3 bd by (intro Min_eqI [OF fy]) auto
  have mxy: "Max (snd ` S) = y + bh - 1"
    using e4 bd by (intro Max_eqI [OF fy]) force+
  show "x = Min (fst ` S)" "y = Min (snd ` S)"
    "bw = Max (fst ` S) - Min (fst ` S) + 1" "bh = Max (snd ` S) - Min (snd ` S) + 1"
    using mnx mxx mny mxy by simp_all
  have sub: "S \<subseteq> {x..<x + bw} \<times> {y..<y + bh}"
    using bd by (auto simp: mem_Times_iff)
  have pos: "0 \<le> bw" "0 \<le> bh"
    using e1 e3 bd by force+
  have "card S \<le> card ({x..<x + bw} \<times> {y..<y + bh})"
    by (rule card_mono [OF _ sub]) simp
  also have "\<dots> = nat bw * nat bh"
    by (simp add: card_cartesian_product)
  finally have "card S \<le> nat bw * nat bh" .
  then have "int (card S) \<le> int (nat bw * nat bh)"
    by (rule of_nat_mono)
  also have "int (nat bw * nat bh) = bw * bh"
    using pos by simp
  finally show "a \<le> bw * bh"
    using a by simp
qed

lemma cc_class_fg:
  assumes "i < length (snd (connected_components h w msk))"
  shows "{p. pix (fst (connected_components h w msk)) p = int i} \<subseteq> {p. fg h w msk p}"
    and "finite {p. pix (fst (connected_components h w msk)) p = int i}"
    and "stat_ok (snd (connected_components h w msk) ! i)
           {p. pix (fst (connected_components h w msk)) p = int i}"
proof -
  obtain s where s: "fg h w msk s"
     "{p. pix (fst (connected_components h w msk)) p = int i} = component h w msk s"
     "stat_ok (snd (connected_components h w msk) ! i) (component h w msk s)"
    using cc_class [OF assms] by blast
  show "{p. pix (fst (connected_components h w msk)) p = int i} \<subseteq> {p. fg h w msk p}"
    unfolding s(2) using component_fg [OF s(1)] by blast
  show "finite {p. pix (fst (connected_components h w msk)) p = int i}"
    unfolding s(2) by (rule finite_component [OF s(1)])
  show "stat_ok (snd (connected_components h w msk) ! i)
           {p. pix (fst (connected_components h w msk)) p = int i}"
    unfolding s(2) by (rule s(3))
qed

lemma cc_area_sum:
  "sum_list (map stat_area (snd (connected_components h w msk))) = int (card {p. fg h w msk p})"
proof -
  let ?l = "fst (connected_components h w msk)"
  let ?stats = "snd (connected_components h w msk)"
  let ?n = "length ?stats"
  let ?cls = "\<lambda>i. {p. pix ?l p = int i}"
  have area: "stat_area (?stats ! i) = int (card (?cls i))" if "i < ?n" for i
    using cc_class_fg(3) [OF that] by (auto simp: stat_ok_def stat_area_def split: prod.splits)
  have "sum_list (map stat_area ?stats) = (\<Sum>i = 0..<?n. stat_area (?stats ! i))"
    by (simp add: sum_list_sum_nth)
  also have "\<dots> = (\<Sum>i = 0..<?n. int (card (?cls i)))"
    by (rule sum.cong) (simp_all add: area)
  also have "\<dots> = int (\<Sum>i = 0..<?n. card (?cls i))"
    by simp
  also have "(\<Sum>i = 0..<?n. card (?cls i)) = card (\<Union>i\<in>{0..<?n}. ?cls i)"
  proof (rule card_UN_disjoint [symmetric])
    show "finite {0..<?n}" by simp
    show "\<forall>i\<in>{0..<?n}. finite (?cls i)" using cc_class_fg(2) by simp
    show "\<forall>i\<in>{0..<?n}. \<forall>j\<in>{0..<?n}. i \<noteq> j \<longrightarrow> ?cls i \<inter> ?cls j = {}" by auto
  qed
  also have "(\<Union>i\<in>{0..<?n}. ?cls i) = {p. fg h w msk p}"
  proof
    show "(\<Union>i\<in>{0..<?n}. ?cls i) \<subseteq> {p. fg h w msk p}"
    proof
      fix p assume "p \<in> (\<Union>i\<in>{0..<?n}. ?cls i)"
      then obtain i where i: "i < ?n" "p \<in> ?cls i" by auto
      show "p \<in> {p. fg h w msk p}"
        using cc_class_fg(1) [OF i(1)] i(2) by blast
    qed
    show "{p. fg h w msk p} \<subseteq> (\<Union>i\<in>{0..<?n}. ?cls i)"
    proof
      fix p assume "p \<in> {p. fg h w msk p}"
      then have p: "fg h w msk p" by simp
      define i where "i = nat (pix ?l p)"
      have "i < ?n" "pix ?l p = int i"
        using cc_foreground [OF p] by (simp_all add: i_def)
      then show "p \<in> (\<Union>i\<in>{0..<?n}. ?cls i)" by auto
    qed
  qed
  finally show ?thesis .
qed

section \<open>Boundary flood fill: proofs\<close>

lemma push_list_append:
  "push_list h w walls s (ps @ qs) = push_list h w walls (push_list h w walls s ps) qs"
  by (simp add: push_list_def)

lemma seed_rows:
  "foldl (\<lambda>s x. push_if_valid h w walls (push_if_valid h w walls s x a) x b) s xs =
   push_list h w walls s (concat (map (\<lambda>x. [(x, a), (x, b)]) xs))"
  by (induction xs arbitrary: s) (simp_all add: push_list_def)

lemma seed_cols:
  "foldl (\<lambda>s y. push_if_valid h w walls (push_if_valid h w walls s a y) b y) s ys =
   push_list h w walls s (concat (map (\<lambda>y. [(a, y), (b, y)]) ys))"
  by (induction ys arbitrary: s) (simp_all add: push_list_def)

lemma seed_border_push_list:
  "seed_border h w walls = push_list h w walls (\<lambda>y x. 0, []) (border_list h w)"
  by (simp add: seed_border_def Let_def seed_rows seed_cols border_list_def push_list_append)

lemma image_int_upt: "int ` {0..<n} = {i. 0 \<le> i \<and> i < int n}"
proof -
  have "i \<in> int ` {0..<n}" if "0 \<le> i" "i < int n" for i
    using that by (intro image_eqI [of _ _ "nat i"]) simp_all
  then show ?thesis by auto
qed

lemma set_border_list:
  "set (border_list h w) =
     {(x, y). 0 \<le> x \<and> x < int w \<and> (y = 0 \<or> y = int h - 1)} \<union>
     {(x, y). 0 \<le> y \<and> y < int h \<and> (x = 0 \<or> x = int w - 1)}"
proof -
  have "set (border_list h w) =
      (\<Union>x\<in>int ` {0..<w}. {(x, 0), (x, int h - 1)}) \<union>
      (\<Union>y\<in>int ` {0..<h}. {(0, y), (int w - 1, y)})"
    by (simp add: border_list_def)
  also have "\<dots> = {(x, y). 0 \<le> x \<and> x < int w \<and> (y = 0 \<or> y = int h - 1)} \<union>
     {(x, y). 0 \<le> y \<and> y < int h \<and> (x = 0 \<or> x = int w - 1)}"
    unfolding image_int_upt by auto
  finally show ?thesis .
qed

lemma border_list_inb:
  "inb h w q \<Longrightarrow> q \<in> set (border_list h w) \<longleftrightarrow> on_border h w q"
  unfolding set_border_list on_border_def
  by (cases q) (auto simp: inb_def)

lemma from_border_free: "from_border h w walls p \<Longrightarrow> free h w walls p"
proof -
  assume "from_border h w walls p"
  then obtain q where q: "on_border h w q" "pix walls q = 0" "(q, p) \<in> (free_step h w walls)\<^sup>*"
    by (auto simp: from_border_def)
  from q(3) show ?thesis
  proof (cases rule: rtranclE)
    case base
    then show ?thesis using q(1,2) by (simp add: free_def on_border_def)
  next
    case (step y)
    then show ?thesis by (simp add: free_step_def)
  qed
qed

lemma from_border_step:
  "from_border h w walls p \<Longrightarrow> q \<in> set (neighbours p) \<Longrightarrow> free h w walls q \<Longrightarrow>
   from_border h w walls q"
proof -
  assume a: "from_border h w walls p" "q \<in> set (neighbours p)" "free h w walls q"
  then have "(p, q) \<in> free_step h w walls"
    using from_border_free [OF a(1)] by (simp add: free_step_def)
  then show ?thesis
    using a(1) unfolding from_border_def by (meson rtrancl.rtrancl_into_rtrancl)
qed

lemma flood_inv_seed:
  "flood_inv h w walls (fst (seed_border h w walls)) (snd (seed_border h w walls))"
proof -
  obtain new where new: "seed_border h w walls =
      ((\<lambda>y x. if (x, y) \<in> set new then 1 else 0), new @ [])"
    "set new = {p \<in> set (border_list h w). free h w walls p \<and> pix (\<lambda>y x. 0 :: 8 word) p = 0}"
    using push_list_effect [of h w walls "\<lambda>y x. 0" "[]" "border_list h w"]
    unfolding seed_border_push_list by blast
  have pixo: "pix (\<lambda>y x. if (x, y) \<in> set new then 1 else 0 :: 8 word) p = 1 \<longleftrightarrow> p \<in> set new" for p
    by (cases p) (simp add: pix_def)
  have pixz: "pix (\<lambda>y x. if (x, y) \<in> set new then 1 else 0 :: 8 word) p = 0 \<longleftrightarrow> p \<notin> set new" for p
    by (cases p) (simp add: pix_def)
  have mem: "p \<in> set new \<longleftrightarrow> on_border h w p \<and> pix walls p = 0" for p
    using new(2) border_list_inb [of h w p]
    by (auto simp: pix_def free_def on_border_def)
  have fb: "from_border h w walls p" if "p \<in> set new" for p
    using that mem unfolding from_border_def by blast
  show ?thesis
    unfolding flood_inv_def new(1) fst_conv snd_conv append_Nil2 pixo pixz
    using mem fb by blast
qed

lemma flood_invD:
  assumes "flood_inv h w walls outside stack"
  shows "pix outside p = 0 \<or> pix outside p = 1 \<and> from_border h w walls p"
    and "p \<in> set stack \<Longrightarrow> pix outside p = 1"
    and "on_border h w q \<Longrightarrow> pix walls q = 0 \<Longrightarrow> pix outside q = 1"
    and "pix outside p = 1 \<Longrightarrow> p \<notin> set stack \<Longrightarrow> q \<in> set (neighbours p) \<Longrightarrow>
         free h w walls q \<Longrightarrow> pix outside q = 1"
  using assms unfolding flood_inv_def by blast+

lemma flood_inv_step:
  assumes inv: "flood_inv h w walls outside (c # stack)"
  shows "flood_inv h w walls
           (fst (push_list h w walls (outside, stack) (neighbours c)))
           (snd (push_list h w walls (outside, stack) (neighbours c)))"
proof -
  obtain new where new: "push_list h w walls (outside, stack) (neighbours c) =
      ((\<lambda>y x. if (x, y) \<in> set new then 1 else outside y x), new @ stack)"
    "set new = {p \<in> set (neighbours c). free h w walls p \<and> pix outside p = 0}"
    using push_list_effect by blast
  let ?o1 = "\<lambda>y x. if (x, y) \<in> set new then 1 else outside y x"
  have o1: "pix ?o1 p = (if p \<in> set new then 1 else pix outside p)" for p
    by (cases p) (simp add: pix_def)
  note i1 = flood_invD(1) [OF inv] and i2 = flood_invD(2) [OF inv]
    and i3 = flood_invD(3) [OF inv] and i4 = flood_invD(4) [OF inv]
  have c: "from_border h w walls c"
    using i1 [of c] i2 [of c] by simp
  have j1: "pix ?o1 p = 0 \<or> pix ?o1 p = 1 \<and> from_border h w walls p" for p
  proof (cases "p \<in> set new")
    case True
    then have "from_border h w walls p"
      using new(2) from_border_step [OF c] by simp
    then show ?thesis using True by (simp add: o1)
  next
    case False
    then show ?thesis using i1 [of p] by (simp add: o1)
  qed
  have j2: "pix ?o1 p = 1" if "p \<in> set (new @ stack)" for p
    using that i2 [of p] by (auto simp: o1)
  have j3: "pix ?o1 q = 1" if "on_border h w q" "pix walls q = 0" for q
    using i3 [OF that] by (simp add: o1)
  have j4: "pix ?o1 q = 1"
    if a: "pix ?o1 p = 1" "p \<notin> set (new @ stack)" "q \<in> set (neighbours p)" "free h w walls q" for p q
  proof (cases "p = c")
    case True
    show ?thesis
    proof (cases "pix outside q = 0")
      case True
      then have "q \<in> set new" using a(3,4) \<open>p = c\<close> new(2) by simp
      then show ?thesis by (simp add: o1)
    next
      case False
      then have "pix outside q = 1" using i1 [of q] by simp
      then show ?thesis by (simp add: o1)
    qed
  next
    case False
    have "pix outside p = 1" using a(1,2) by (simp add: o1 split: if_splits)
    moreover have "p \<notin> set (c # stack)" using False a(2) by simp
    ultimately have "pix outside q = 1" using i4 a(3,4) by blast
    then show ?thesis by (simp add: o1)
  qed
  show ?thesis
    unfolding new(1) fst_conv snd_conv flood_inv_def
    using j1 j2 j3 j4 by blast
qed

lemma flood_inv_final:
  assumes inv: "flood_inv h w walls outside []"
  shows "pix outside p = (if from_border h w walls p then 1 else 0)"
proof (cases "from_border h w walls p")
  case True
  then obtain q where q: "on_border h w q" "pix walls q = 0" "(q, p) \<in> (free_step h w walls)\<^sup>*"
    by (auto simp: from_border_def)
  from q(3) have "pix outside p = 1"
  proof (induction rule: rtrancl_induct)
    case base
    then show ?case using flood_invD(3) [OF inv q(1,2)] .
  next
    case (step y z)
    then have z: "z \<in> set (neighbours y)" "free h w walls z"
      by (simp_all add: free_step_def)
    show ?case
      by (rule flood_invD(4) [OF inv step.IH _ z]) simp
  qed
  then show ?thesis using True by simp
next
  case False
  then show ?thesis using flood_invD(1) [OF inv, of p] by simp
qed

lemma flood_correct:
  "flood_inv h w walls outside stack \<Longrightarrow>
   pix (flood h w walls outside stack) p = (if from_border h w walls p then 1 else 0)"
proof (induction h w walls outside stack rule: flood.induct)
  case (1 h w walls outside)
  then show ?case by (simp add: flood_inv_final)
next
  case (2 h w walls outside c stack)
  let ?s = "push_list h w walls (outside, stack) (neighbours c)"
  have "flood_inv h w walls (fst ?s) (snd ?s)"
    by (rule flood_inv_step [OF "2.prems"])
  then have "pix (flood h w walls (fst ?s) (snd ?s)) p = (if from_border h w walls p then 1 else 0)"
    using "2.IH" [of ?s] by (simp add: foldl_spread)
  then show ?case by (simp add: foldl_spread Let_def)
qed

lemma outside_mask_pix:
  "pix (outside_mask h w walls) p = (if from_border h w walls p then 1 else 0)"
  using flood_correct [OF flood_inv_seed, of h w walls p]
  by (simp add: outside_mask_def case_prod_unfold)

section \<open>Component filter and texture tiling: proofs\<close>

lemma keep_large_snoc:
  "keep_large m (stats @ [st]) =
     (if m \<le> stat_area st then keep_large m stats @ [length stats] else keep_large m stats)"
  by (simp add: keep_large_def enumerate_append_eq)

lemma set_keep_large:
  "set (keep_large m stats) = {idx. idx < length stats \<and> m \<le> stat_area (stats ! idx)}"
proof (induction stats rule: rev_induct)
  case Nil
  then show ?case by (simp add: keep_large_def)
next
  case (snoc st stats)
  have old: "{idx. idx < length stats \<and> m \<le> stat_area ((stats @ [st]) ! idx)} =
      {idx. idx < length stats \<and> m \<le> stat_area (stats ! idx)}"
    by (auto simp: nth_append)
  have split: "{idx. idx < length (stats @ [st]) \<and> m \<le> stat_area ((stats @ [st]) ! idx)} =
      {idx. idx < length stats \<and> m \<le> stat_area ((stats @ [st]) ! idx)} \<union>
      (if m \<le> stat_area st then {length stats} else {})"
    by (auto simp: less_Suc_eq)
  show ?case
    unfolding split old keep_large_snoc using snoc by simp
qed

lemma clean_mask_pix:
  "pix (clean_mask labels keep) p = (if \<exists>idx\<in>set keep. pix labels p = int idx then 1 else 0)"
proof (induction keep rule: rev_induct)
  case Nil
  then show ?case by (simp add: clean_mask_def pix_def)
next
  case (snoc idx keep)
  have "clean_mask labels (keep @ [idx]) = mark_label labels (clean_mask labels keep) idx"
    by (simp add: clean_mask_def)
  then have "pix (clean_mask labels (keep @ [idx])) p =
      (if pix labels p = int idx then 1 else pix (clean_mask labels keep) p)"
    by (simp add: mark_label_def pix_def)
  then show ?case using snoc by auto
qed

lemma cc_label_component:
  assumes p: "fg h w msk p"
  shows "\<exists>idx < length (snd (connected_components h w msk)).
     pix (fst (connected_components h w msk)) p = int idx \<and>
     stat_area (snd (connected_components h w msk) ! idx) = int (card (component h w msk p))"
proof -
  let ?l = "fst (connected_components h w msk)"
  let ?stats = "snd (connected_components h w msk)"
  define i where "i = nat (pix ?l p)"
  have i: "i < length ?stats" "pix ?l p = int i"
    using cc_foreground [OF p] by (simp_all add: i_def)
  obtain s where s: "{r. pix ?l r = int i} = component h w msk s"
    "stat_ok (?stats ! i) (component h w msk s)"
    using cc_class [OF i(1)] by blast
  have "p \<in> component h w msk s" using s(1) i(2) by blast
  then have "component h w msk p = component h w msk s" by (rule component_eq)
  then have "stat_area (?stats ! i) = int (card (component h w msk p))"
    using s(2) by (auto simp: stat_ok_def stat_area_def split: prod.splits)
  then show ?thesis using i by blast
qed

lemma nth_concat_replicate:
  "i < n * length xs \<Longrightarrow> concat (replicate n xs) ! i = xs ! (i mod length xs)"
proof (induction n arbitrary: i)
  case 0
  then show ?case by simp
next
  case (Suc n)
  show ?case
  proof (cases "i < length xs")
    case True
    then show ?thesis by (simp add: nth_append)
  next
    case False
    then have "i - length xs < n * length xs" using Suc.prems by simp
    then have "concat (replicate n xs) ! (i - length xs) = xs ! ((i - length xs) mod length xs)"
      by (rule Suc.IH)
    moreover have "(i - length xs) mod length xs = i mod length xs"
      using False by (simp add: le_mod_geq)
    ultimately show ?thesis using False by (simp add: nth_append)
  qed
qed

lemma length_concat_replicate: "length (concat (replicate n xs)) = n * length xs"
  by (induction n) simp_all

lemma ceil_div_cover:
  assumes "0 < (t :: nat)"
  shows "h \<le> (h + t - 1) div t * t"
proof -
  have "h + t - 1 = (h + t - 1) div t * t + (h + t - 1) mod t" by simp
  moreover have "(h + t - 1) mod t < t" using assms by simp
  ultimately have "h + t - 1 < (h + t - 1) div t * t + t" by linarith
  then show ?thesis using assms by simp
qed

lemma np_tile_length: "length (np_tile a ry rx) = ry * length a"
  by (simp add: np_tile_def length_concat_replicate)

lemma np_tile_row:
  "y < ry * length a \<Longrightarrow> np_tile a ry rx ! y = concat (replicate rx (a ! (y mod length a)))"
proof -
  assume y: "y < ry * length a"
  then have pos: "0 < length a" by (cases a) simp_all
  have "np_tile a ry rx ! y = map (\<lambda>row. concat (replicate rx row)) a ! (y mod length a)"
    using y nth_concat_replicate [of y ry "map (\<lambda>row. concat (replicate rx row)) a"]
    by (simp add: np_tile_def)
  also have "\<dots> = concat (replicate rx (a ! (y mod length a)))"
    using pos by simp
  finally show ?thesis .
qed

lemma tile_texture_nth:
  assumes ne: "tex_arr \<noteq> []" and rect: "list_all (\<lambda>row. length row = tw) tex_arr"
    and tw: "0 < tw" and y: "y < h" and x: "x < w"
  shows "\<exists>tiled. tile_texture tex_arr h w = Inr tiled \<and> length tiled = h \<and>
     length (tiled ! y) = w \<and>
     tiled ! y ! x = tex_arr ! (y mod length tex_arr) ! (x mod tw)"
proof -
  let ?th = "length tex_arr"
  let ?ry = "(h + ?th - 1) div ?th"
  let ?rx = "(w + tw - 1) div tw"
  let ?tiled = "map (take w) (take h (np_tile tex_arr ?ry ?rx))"
  have th: "0 < ?th" using ne by simp
  have row: "length r = tw" if "r \<in> set tex_arr" for r
    using rect that by (simp add: list_all_iff)
  have hd: "length (hd tex_arr) = tw"
    using ne row by simp
  have res: "tile_texture tex_arr h w = Inr ?tiled"
    using th tw by (simp add: tile_texture_def Let_def hd)
  have hy: "h \<le> ?ry * ?th" by (rule ceil_div_cover [OF th])
  have wx: "w \<le> ?rx * tw" by (rule ceil_div_cover [OF tw])
  have len: "length ?tiled = h"
    using hy by (simp add: np_tile_length)
  have yy: "y < ?ry * ?th" using y hy by simp
  have r: "tex_arr ! (y mod ?th) \<in> set tex_arr"
    using th by simp
  have "?tiled ! y = take w (np_tile tex_arr ?ry ?rx ! y)"
    using y hy by (simp add: np_tile_length)
  then have rowy: "?tiled ! y = take w (concat (replicate ?rx (tex_arr ! (y mod ?th))))"
    by (simp only: np_tile_row [OF yy])
  have leny: "length (?tiled ! y) = w"
    unfolding rowy using wx by (simp add: length_concat_replicate row [OF r])
  have "x < ?rx * length (tex_arr ! (y mod ?th))"
    using x wx by (simp add: row [OF r])
  then have "?tiled ! y ! x = tex_arr ! (y mod ?th) ! (x mod tw)"
    unfolding rowy using x nth_concat_replicate [of x ?rx "tex_arr ! (y mod ?th)"]
    by (simp add: row [OF r])
  then show ?thesis using res len leny by blast
qed

subsection \<open>The clipped neighbourhood\<close>

lemma set_row_major: "set (concat (map (\<lambda>y. map (\<lambda>x. (x, y)) xs) ys)) = set xs \<times> set ys"
  by (induction ys) auto

lemma set_window:
  "set (window ksize h w p) =
     {q. inb h w q \<and> \<bar>fst q - fst p\<bar> \<le> int (ksize div 2) \<and> \<bar>snd q - snd p\<bar> \<le> int (ksize div 2)}"
proof (rule set_eqI)
  fix q :: pixel
  obtain a b where q: "q = (a, b)" by (cases q)
  let ?r = "int (ksize div 2)"
  have "q \<in> set (window ksize h w p) \<longleftrightarrow>
      a \<in> {max 0 (fst p - ?r) .. min (int w - 1) (fst p + ?r)} \<and>
      b \<in> {max 0 (snd p - ?r) .. min (int h - 1) (snd p + ?r)}"
    unfolding q window_def Let_def set_row_major by simp
  also have "\<dots> \<longleftrightarrow> inb h w q \<and> \<bar>fst q - fst p\<bar> \<le> ?r \<and> \<bar>snd q - snd p\<bar> \<le> ?r"
    unfolding q inb_def by auto
  finally show "q \<in> set (window ksize h w p) \<longleftrightarrow>
      q \<in> {q. inb h w q \<and> \<bar>fst q - fst p\<bar> \<le> ?r \<and> \<bar>snd q - snd p\<bar> \<le> ?r}"
    by simp
qed

lemma length_window:
  "length (window ksize h w p) =
     nat (min (int w - 1) (fst p + int (ksize div 2)) - max 0 (fst p - int (ksize div 2)) + 1) *
     nat (min (int h - 1) (snd p + int (ksize div 2)) - max 0 (snd p - int (ksize div 2)) + 1)"
  by (simp add: window_def Let_def length_concat comp_def sum_list_triv)

lemma centre_in_window: "inb h w p \<Longrightarrow> p \<in> set (window ksize h w p)"
  by (simp add: set_window)

section \<open>Results\<close>

text \<open>
  C1. The outside mask computed by the border flood fill is \<open>1\<close> exactly at the pixels \<open>p\<close>
  of the grid with \<open>walls[p] = 0\<close> that are reached from some border pixel \<open>q\<close> with
  \<open>walls[q] = 0\<close> along a chain of 4-adjacent non-wall pixels of the grid, and \<open>0\<close>
  everywhere else. In particular, when every border pixel is a wall pixel the outside mask
  is \<open>0\<close> everywhere and the candidate floor is \<open>1\<close> exactly at the non-wall pixels.
\<close>

theorem outside_mask_reachable:
  "(pix (outside_mask h w walls) p = 1 \<longleftrightarrow>
      inb h w p \<and> pix walls p = 0 \<and>
      (\<exists>q. on_border h w q \<and> pix walls q = 0 \<and> (q, p) \<in> (free_step h w walls)\<^sup>*)) \<and>
   (pix (outside_mask h w walls) p = 0 \<or> pix (outside_mask h w walls) p = 1) \<and>
   (border_blocked h w walls \<longrightarrow>
      pix (outside_mask h w walls) p = 0 \<and>
      (pix (floor_mask walls (outside_mask h w walls)) p = 1 \<longleftrightarrow> pix walls p = 0))"
proof -
  have fb: "from_border h w walls p \<longleftrightarrow>
      inb h w p \<and> pix walls p = 0 \<and>
      (\<exists>q. on_border h w q \<and> pix walls q = 0 \<and> (q, p) \<in> (free_step h w walls)\<^sup>*)"
    using from_border_free [of h w walls p]
    by (auto simp: from_border_def free_def)
  have nb: "\<not> from_border h w walls p" if "border_blocked h w walls"
    using that by (auto simp: from_border_def border_blocked_def)
  have fl: "pix (floor_mask walls outside) p = 1 \<longleftrightarrow> pix walls p = 0 \<and> pix outside p = 0"
    for outside
    by (simp add: floor_mask_def pix_def)
  show ?thesis
    unfolding fl outside_mask_pix fb [symmetric] using nb by simp
qed

theorem outside_mask_reachable_witness:
  "border_blocked 3 3 ring3 \<and>
   pix ring3 (1, 1) = 0 \<and>
   pix (outside_mask 3 3 ring3) (1, 1) = 0 \<and>
   pix (floor_mask ring3 (outside_mask 3 3 ring3)) (1, 1) = 1 \<and>
   pix (outside_mask 5 5 ring5) (4, 2) = 1 \<and>
   (\<exists>q. on_border 5 5 q \<and> pix ring5 q = 0 \<and> ((q, (4, 2)) \<in> (free_step 5 5 ring5)\<^sup>*)) \<and>
   pix ring5 (2, 2) = 0 \<and>
   pix (outside_mask 5 5 ring5) (2, 2) = 0 \<and>
   \<not> (\<exists>q. on_border 5 5 q \<and> pix ring5 q = 0 \<and> ((q, (2, 2)) \<in> (free_step 5 5 ring5)\<^sup>*))"
proof -
  have b: "border_blocked 3 3 ring3"
    by (auto simp: border_blocked_def on_border_def inb_def ring3_def pix_def)
  have c: "pix ring3 (1, 1) = 0" "pix ring5 (2, 2) = 0"
    by (simp_all add: ring3_def ring5_def pix_def)
  have e1: "pix (outside_mask 5 5 ring5) (4, 2) = 1"
    by code_simp
  have e2: "pix (outside_mask 5 5 ring5) (2, 2) = 0"
    by code_simp
  have i: "inb 5 5 (2, 2)"
    by (simp add: inb_def)
  show ?thesis
    using b c e1 e2 i
      outside_mask_reachable [of 3 3 ring3 "(1, 1)"]
      outside_mask_reachable [of 5 5 ring5 "(4, 2)"]
      outside_mask_reachable [of 5 5 ring5 "(2, 2)"]
    by simp
qed

text \<open>
  C2. In the label grid returned by \<open>connected_components\<close>, every background pixel of the
  grid keeps the sentinel \<open>-1\<close>; every foreground pixel has a label from \<open>0\<close> to \<open>n - 1\<close>,
  where \<open>n\<close> is the number of statistics rows; each of these labels is used (the labels are
  dense from \<open>0\<close>); labels follow the row-major order of discovery (for \<open>i < j\<close> some pixel
  labelled \<open>i\<close> comes before every pixel labelled \<open>j\<close> in row-major order); and two
  foreground pixels have the same label exactly when a chain of 4-adjacent foreground
  pixels connects them.
\<close>

theorem connected_components_labels:
  assumes "inb h w p" "inb h w q"
  shows "let labels = fst (connected_components h w msk);
             n = length (snd (connected_components h w msk))
         in (pix msk p = 0 \<longrightarrow> pix labels p = - 1) \<and>
            (pix msk p \<noteq> 0 \<longrightarrow> 0 \<le> pix labels p \<and> pix labels p < int n) \<and>
            (\<forall>i<n. \<exists>a. inb h w a \<and> pix msk a \<noteq> 0 \<and> pix labels a = int i) \<and>
            (\<forall>i j. i < j \<and> j < n \<longrightarrow>
               (\<exists>a. pix labels a = int i \<and> (\<forall>b. pix labels b = int j \<longrightarrow> before a b))) \<and>
            (pix msk p \<noteq> 0 \<and> pix msk q \<noteq> 0 \<longrightarrow>
               (pix labels p = pix labels q \<longleftrightarrow> (p, q) \<in> (fg_step h w msk)\<^sup>*))"
proof -
  let ?l = "fst (connected_components h w msk)"
  let ?n = "length (snd (connected_components h w msk))"
  have a: "pix msk p = 0 \<longrightarrow> pix ?l p = - 1"
    using cc_background [of h w msk p] by (simp add: fg_def)
  have b: "pix msk p \<noteq> 0 \<longrightarrow> 0 \<le> pix ?l p \<and> pix ?l p < int ?n"
    using cc_foreground [of h w msk p] assms(1) by (simp add: fg_def)
  have c: "\<exists>a. inb h w a \<and> pix msk a \<noteq> 0 \<and> pix ?l a = int i" if i: "i < ?n" for i
  proof -
    obtain s where s: "fg h w msk s" "{p. pix ?l p = int i} = component h w msk s"
      using cc_class [OF i] by blast
    have "pix ?l s = int i" using s(2) component_self [of s h w msk] by blast
    then show ?thesis using s(1) by (intro exI [of _ s]) (simp add: fg_def)
  qed
  have d: "\<exists>a. pix ?l a = int i \<and> (\<forall>b. pix ?l b = int j \<longrightarrow> before a b)"
    if "i < j \<and> j < ?n" for i j
    using cc_order [of i j h w msk] that by blast
  have e: "pix msk p \<noteq> 0 \<and> pix msk q \<noteq> 0 \<longrightarrow>
               (pix ?l p = pix ?l q \<longleftrightarrow> (p, q) \<in> (fg_step h w msk)\<^sup>*)"
    using cc_same_label [of h w msk p q] assms by (simp add: fg_def)
  show ?thesis
    unfolding Let_def using a b c d e by blast
qed

theorem connected_components_labels_witness:
  "inb 3 3 (2, 1) \<and> inb 3 3 (2, 2) \<and>
   snd (connected_components 3 3 two_blobs) = [(0, 0, 1, 1, 1), (2, 1, 1, 2, 2)] \<and>
   pix two_blobs (2, 1) \<noteq> 0 \<and> pix two_blobs (2, 2) \<noteq> 0 \<and>
   pix (fst (connected_components 3 3 two_blobs)) (2, 1) = 1 \<and>
   pix (fst (connected_components 3 3 two_blobs)) (2, 2) = 1 \<and>
   ((2, 1), (2, 2)) \<in> (fg_step 3 3 two_blobs)\<^sup>* \<and>
   (let labels = fst (connected_components 3 3 two_blobs);
        n = length (snd (connected_components 3 3 two_blobs))
    in (pix two_blobs (2, 1) = 0 \<longrightarrow> pix labels (2, 1) = - 1) \<and>
       (pix two_blobs (2, 1) \<noteq> 0 \<longrightarrow> 0 \<le> pix labels (2, 1) \<and> pix labels (2, 1) < int n) \<and>
       (\<forall>i<n. \<exists>a. inb 3 3 a \<and> pix two_blobs a \<noteq> 0 \<and> pix labels a = int i) \<and>
       (\<forall>i j. i < j \<and> j < n \<longrightarrow>
          (\<exists>a. pix labels a = int i \<and> (\<forall>b. pix labels b = int j \<longrightarrow> before a b))) \<and>
       (pix two_blobs (2, 1) \<noteq> 0 \<and> pix two_blobs (2, 2) \<noteq> 0 \<longrightarrow>
          (pix labels (2, 1) = pix labels (2, 2) \<longleftrightarrow>
             ((2, 1), (2, 2)) \<in> (fg_step 3 3 two_blobs)\<^sup>*)))"
proof -
  have i: "inb 3 3 (2, 1)" "inb 3 3 (2, 2)"
    by (simp_all add: inb_def)
  have m: "pix two_blobs (2, 1) \<noteq> 0" "pix two_blobs (2, 2) \<noteq> 0"
    by (simp_all add: two_blobs_def pix_def)
  have s: "snd (connected_components 3 3 two_blobs) = [(0, 0, 1, 1, 1), (2, 1, 1, 2, 2)]"
    by code_simp
  have l: "pix (fst (connected_components 3 3 two_blobs)) (2, 1) = 1"
    "pix (fst (connected_components 3 3 two_blobs)) (2, 2) = 1"
    by code_simp+
  note t = connected_components_labels [OF i, of two_blobs]
  have c: "((2, 1), (2, 2)) \<in> (fg_step 3 3 two_blobs)\<^sup>*"
    using t m l unfolding Let_def by simp
  show ?thesis
    using i m s l c t by simp
qed




text \<open>
  C4. For every component \<open>i\<close> of the statistics returned by \<open>connected_components\<close>, the
  area is the number of pixels labelled \<open>i\<close> and is at most width times height of the row's
  bounding box; the bounding box is exact (its corner is the least \<open>x\<close> and the least \<open>y\<close>
  of these pixels, its width and height are the spans of their coordinates); and the sum
  of all areas is the number of foreground pixels of the mask.
\<close>

theorem connected_components_stats:
  "let labels = fst (connected_components h w msk);
       stats = snd (connected_components h w msk)
   in (i < length stats \<longrightarrow>
        (case stats ! i of (x, y, bw, bh, a) \<Rightarrow>
           a = int (card {p. pix labels p = int i}) \<and>
           a \<le> bw * bh \<and>
           x = Min (fst ` {p. pix labels p = int i}) \<and>
           y = Min (snd ` {p. pix labels p = int i}) \<and>
           bw = Max (fst ` {p. pix labels p = int i}) - Min (fst ` {p. pix labels p = int i}) + 1 \<and>
           bh = Max (snd ` {p. pix labels p = int i}) - Min (snd ` {p. pix labels p = int i}) + 1)) \<and>
      sum_list (map stat_area stats) = int (card {p. inb h w p \<and> pix msk p \<noteq> 0})"
proof -
  let ?l = "fst (connected_components h w msk)"
  let ?stats = "snd (connected_components h w msk)"
  have one: "case ?stats ! i of (x, y, bw, bh, a) \<Rightarrow>
           a = int (card {p. pix ?l p = int i}) \<and>
           a \<le> bw * bh \<and>
           x = Min (fst ` {p. pix ?l p = int i}) \<and>
           y = Min (snd ` {p. pix ?l p = int i}) \<and>
           bw = Max (fst ` {p. pix ?l p = int i}) - Min (fst ` {p. pix ?l p = int i}) + 1 \<and>
           bh = Max (snd ` {p. pix ?l p = int i}) - Min (snd ` {p. pix ?l p = int i}) + 1"
    if i: "i < length ?stats"
  proof -
    obtain x y bw bh a where st: "?stats ! i = (x, y, bw, bh, a)"
      by (cases "?stats ! i") auto
    have ok: "stat_ok (x, y, bw, bh, a) {p. pix ?l p = int i}"
      using cc_class_fg(3) [OF i] by (simp add: st)
    show ?thesis
      unfolding st prod.case
      using stat_ok_Min [OF ok cc_class_fg(2) [OF i]] by blast
  qed
  have "{p. inb h w p \<and> pix msk p \<noteq> 0} = {p. fg h w msk p}"
    by (simp add: fg_def)
  then show ?thesis
    unfolding Let_def using one cc_area_sum [of h w msk] by simp
qed

theorem connected_components_stats_witness:
  "snd (connected_components 3 3 two_blobs) = [(0, 0, 1, 1, 1), (2, 1, 1, 2, 2)] \<and>
   (1 :: nat) < length (snd (connected_components 3 3 two_blobs)) \<and>
   (let labels = fst (connected_components 3 3 two_blobs);
        stats = snd (connected_components 3 3 two_blobs)
    in (case stats ! 1 of (x, y, bw, bh, a) \<Rightarrow>
           a = int (card {p. pix labels p = int 1}) \<and>
           a \<le> bw * bh \<and>
           x = Min (fst ` {p. pix labels p = int 1}) \<and>
           y = Min (snd ` {p. pix labels p = int 1}) \<and>
           bw = Max (fst ` {p. pix labels p = int 1}) - Min (fst ` {p. pix labels p = int 1}) + 1 \<and>
           bh = Max (snd ` {p. pix labels p = int 1}) - Min (snd ` {p. pix labels p = int 1}) + 1) \<and>
       sum_list (map stat_area stats) = int (card {p. inb 3 3 p \<and> pix two_blobs p \<noteq> 0}))"
proof -
  have s: "snd (connected_components 3 3 two_blobs) = [(0, 0, 1, 1, 1), (2, 1, 1, 2, 2)]"
    by code_simp
  have n: "(1 :: nat) < length (snd (connected_components 3 3 two_blobs))"
    by (simp add: s)
  show ?thesis
    using s n connected_components_stats [of 3 3 two_blobs 1]
    unfolding Let_def by simp
qed

text \<open>
  C5. With erosion and dilation as the specification describes them, for every mask, every
  kernel size and every pixel of the grid: the neighbourhood is the set of pixels of the
  grid within \<open>kernelSize div 2\<close> of the pixel in both coordinates (never more than
  \<open>kernelSize\<^sup>2\<close> pixels, fewer at edges and corners); the eroded value is the least and the
  dilated value the greatest value of the mask on that neighbourhood, each attained at one
  of its pixels, so no value from outside the image takes part; and eroding a mask that has
  one value on the whole grid (all foreground) gives that value. The kernel sizes of the
  wall extractor are \<open>7\<close> and \<open>3\<close>.
\<close>

theorem rank_filter_clipped:
  assumes "inb h w (x, y)"
  shows "set (window ksize h w (x, y)) =
       {q. inb h w q \<and> \<bar>fst q - x\<bar> \<le> int (ksize div 2) \<and> \<bar>snd q - y\<bar> \<le> int (ksize div 2)} \<and>
     (\<exists>q\<in>set (window ksize h w (x, y)). min_filter ksize h w a y x = pix a q) \<and>
     (\<forall>q\<in>set (window ksize h w (x, y)). min_filter ksize h w a y x \<le> pix a q) \<and>
     (\<exists>q\<in>set (window ksize h w (x, y)). max_filter ksize h w a y x = pix a q) \<and>
     (\<forall>q\<in>set (window ksize h w (x, y)). pix a q \<le> max_filter ksize h w a y x) \<and>
     length (window ksize h w (x, y)) \<le> (2 * (ksize div 2) + 1) * (2 * (ksize div 2) + 1) \<and>
     ((\<forall>q. inb h w q \<longrightarrow> pix a q = v) \<longrightarrow> min_filter ksize h w a y x = v) \<and>
     max 1 (MIN_WALL_THICKNESS_PX OR 1) = 7 \<and>
     max 1 ((MIN_WALL_THICKNESS_PX div 2) OR 1) = 3"
proof -
  let ?W = "window ksize h w (x, y)"
  let ?V = "set (map (pix a) ?W)"
  have ne: "?V \<noteq> {}" using centre_in_window [OF assms, of ksize] by auto
  have fin: "finite ?V" by simp
  have mn: "min_filter ksize h w a y x = Min ?V" and mx: "max_filter ksize h w a y x = Max ?V"
    using assms by (simp_all add: min_filter_def max_filter_def)
  have a1: "set ?W =
       {q. inb h w q \<and> \<bar>fst q - x\<bar> \<le> int (ksize div 2) \<and> \<bar>snd q - y\<bar> \<le> int (ksize div 2)}"
    by (simp add: set_window)
  have a2: "\<exists>q\<in>set ?W. min_filter ksize h w a y x = pix a q"
    using Min_in [OF fin ne] unfolding mn by auto
  have a3: "\<forall>q\<in>set ?W. min_filter ksize h w a y x \<le> pix a q"
    unfolding mn by (auto intro: Min_le)
  have a4: "\<exists>q\<in>set ?W. max_filter ksize h w a y x = pix a q"
    using Max_in [OF fin ne] unfolding mx by auto
  have a5: "\<forall>q\<in>set ?W. pix a q \<le> max_filter ksize h w a y x"
    unfolding mx by (auto intro: Max_ge)
  have "nat (min (int w - 1) (x + int (ksize div 2)) - max 0 (x - int (ksize div 2)) + 1)
      \<le> 2 * (ksize div 2) + 1"
    and "nat (min (int h - 1) (y + int (ksize div 2)) - max 0 (y - int (ksize div 2)) + 1)
      \<le> 2 * (ksize div 2) + 1"
    by auto
  then have a6: "length ?W \<le> (2 * (ksize div 2) + 1) * (2 * (ksize div 2) + 1)"
    unfolding length_window fst_conv snd_conv by (rule mult_le_mono)
  have a7: "min_filter ksize h w a y x = v" if "\<forall>q. inb h w q \<longrightarrow> pix a q = v"
  proof -
    obtain q where "q \<in> set ?W" "min_filter ksize h w a y x = pix a q" using a2 by blast
    then show ?thesis using that by (simp add: set_window)
  qed
  have a8: "max 1 (MIN_WALL_THICKNESS_PX OR 1) = 7"
    "max 1 ((MIN_WALL_THICKNESS_PX div 2) OR 1) = 3"
    by (simp_all add: MIN_WALL_THICKNESS_PX_def)
  show ?thesis
    using a1 a2 a3 a4 a5 a6 a7 a8 by blast
qed

theorem rank_filter_clipped_witness:
  "inb 3 3 (0, 0) \<and>
   window 3 3 3 (0, 0) = [(0, 0), (1, 0), (0, 1), (1, 1)] \<and>
   min_filter 3 3 3 (\<lambda>y x. 255) 0 0 = 255 \<and>
   min_filter 3 3 3 (\<lambda>y x. if x = 1 \<and> y = 1 then 0 else 255) 0 0 = 0 \<and>
   min_filter 3 3 3 (\<lambda>y x. if x = 2 \<and> y = 2 then 0 else 255) 0 0 = 255 \<and>
   max_filter 3 3 3 (\<lambda>y x. if x = 2 \<and> y = 2 then 255 else 0) 0 0 = 0 \<and>
   length (window 3 3 3 (0, 0)) \<le> (2 * (3 div 2) + 1) * (2 * (3 div 2) + 1)"
proof -
  have i: "inb 3 3 (0, 0)"
    by (simp add: inb_def)
  have w: "window 3 3 3 (0, 0) = [(0, 0), (1, 0), (0, 1), (1, 1)]"
    by code_simp
  have c: "\<forall>q. inb 3 3 q \<longrightarrow> pix (\<lambda>y x. 255 :: 8 word) q = 255"
    by (simp add: pix_def)
  have e: "min_filter 3 3 3 (\<lambda>y x. if x = 1 \<and> y = 1 then 0 else 255) 0 0 = 0"
    "min_filter 3 3 3 (\<lambda>y x. if x = 2 \<and> y = 2 then 0 else 255) 0 0 = 255"
    "max_filter 3 3 3 (\<lambda>y x. if x = 2 \<and> y = 2 then 255 else 0) 0 0 = 0"
    by code_simp+
  show ?thesis
    using i w c e rank_filter_clipped [OF i, of 3 "\<lambda>y x. 255" 255]
    by simp
qed

text \<open>
  C6. For every image and every non-empty rectangular texture, the floor filler returns an
  output grid, and at every pixel of the grid the output is the tiled texture where the
  kept-floor mask is \<open>1\<close>, else black where \<open>walls\<close> is \<open>1\<close>, else white (the white canvas,
  overwritten first by the walls and then by the floor); the tiled texture at \<open>(y, x)\<close> is
  the texture at \<open>(y mod th, x mod tw)\<close>.
\<close>

theorem floor_filler_output:
  assumes "tex_arr \<noteq> []" and "list_all (\<lambda>row. length row = tw) tex_arr" and "0 < tw"
    and "inb h w (x, y)"
  shows "\<exists>tiled out.
     tile_texture tex_arr h w = Inr tiled \<and>
     tiled ! nat y ! nat x = tex_arr ! (nat y mod length tex_arr) ! (nat x mod tw) \<and>
     generate_floor_mask MinFilter MaxFilter tex_arr h w gray = Inr out \<and>
     out y x =
       (if kept_floor MinFilter MaxFilter h w gray y x = 1 then tiled ! nat y ! nat x
        else if wall_mask gray y x = 1 then (0, 0, 0)
        else (255, 255, 255))"
proof -
  have yx: "nat y < h" "nat x < w"
    using assms(4) by (auto simp: inb_def)
  obtain tiled where t: "tile_texture tex_arr h w = Inr tiled"
    "tiled ! nat y ! nat x = tex_arr ! (nat y mod length tex_arr) ! (nat x mod tw)"
    using tile_texture_nth [OF assms(1-3) yx] by blast
  let ?out = "compose (wall_mask gray) (kept_floor MinFilter MaxFilter h w gray) tiled"
  have g: "generate_floor_mask MinFilter MaxFilter tex_arr h w gray = Inr ?out"
    by (simp add: generate_floor_mask_def Let_def t(1))
  have o: "?out y x =
       (if kept_floor MinFilter MaxFilter h w gray y x = 1 then tiled ! nat y ! nat x
        else if wall_mask gray y x = 1 then (0, 0, 0)
        else (255, 255, 255))"
    by (simp add: compose_def Let_def)
  show ?thesis
    using t g o by blast
qed

theorem floor_filler_output_witness:
  "[[(1, 2, 3), (4, 5, 6)]] \<noteq> ([] :: rgb list list) \<and>
   list_all (\<lambda>row. length row = 2) [[(1, 2, 3), (4, 5, 6) :: rgb]] \<and>
   (0 :: nat) < 2 \<and> inb 2 3 (2, 1) \<and>
   tile_texture [[(1, 2, 3), (4, 5, 6)]] 2 3 =
     Inr [[(1, 2, 3), (4, 5, 6), (1, 2, 3)], [(1, 2, 3), (4, 5, 6), (1, 2, 3)]] \<and>
   (\<exists>tiled out.
     tile_texture [[(1, 2, 3), (4, 5, 6)]] 2 3 = Inr tiled \<and>
     tiled ! nat 1 ! nat 2 =
       [[(1, 2, 3), (4, 5, 6)]] ! (nat 1 mod length [[(1, 2, 3), (4, 5, 6) :: rgb]]) ! (nat 2 mod 2) \<and>
     generate_floor_mask (\<lambda>size h w a. a) (\<lambda>size h w a. a) [[(1, 2, 3), (4, 5, 6)]] 2 3
       (\<lambda>y x. 255) = Inr out \<and>
     out 1 2 =
       (if kept_floor (\<lambda>size h w a. a) (\<lambda>size h w a. a) 2 3 (\<lambda>y x. 255) 1 2 = 1
        then tiled ! nat 1 ! nat 2
        else if wall_mask (\<lambda>y x. 255) 1 2 = 1 then (0, 0, 0)
        else (255, 255, 255)))"
proof -
  have a: "[[(1, 2, 3), (4, 5, 6)]] \<noteq> ([] :: rgb list list)"
    and b: "list_all (\<lambda>row. length row = 2) [[(1, 2, 3), (4, 5, 6) :: rgb]]"
    and c: "(0 :: nat) < 2" and d: "inb 2 3 (2, 1)"
    by (simp_all add: inb_def)
  have t: "tile_texture [[(1, 2, 3), (4, 5, 6) :: rgb]] 2 3 =
     Inr [[(1, 2, 3), (4, 5, 6), (1, 2, 3)], [(1, 2, 3), (4, 5, 6), (1, 2, 3)]]"
    by code_simp
  show ?thesis
    using a b c d t
      floor_filler_output [OF a b c d, of "\<lambda>size h w a. a" "\<lambda>size h w a. a" "\<lambda>y x. 255"]
    by simp
qed

text \<open>
  C7. In the component filter of both pipelines (the same two loops, with
  \<open>MIN_COMPONENT_AREA_PX\<close> on the wall candidates and \<open>MIN_FLOOR_AREA_PX\<close> on the candidate
  floor), a component index is kept exactly when its area is at least the minimum area
  \<open>m\<close> (an area equal to \<open>m\<close> is kept); the cleaned mask is \<open>1\<close> at \<open>p\<close> exactly when the
  label of \<open>p\<close> is a kept index, that is, when \<open>p\<close> is a foreground pixel of the grid whose
  component has at least \<open>m\<close> pixels, and \<open>0\<close> elsewhere; and the labeller drops nothing:
  every foreground pixel of the grid has a label that indexes a statistics row.
\<close>

theorem component_filter:
  "let labels = fst (connected_components h w msk);
       stats = snd (connected_components h w msk);
       keep = keep_large m stats;
       clean = clean_mask labels keep
   in (idx \<in> set keep \<longleftrightarrow> idx < length stats \<and> m \<le> stat_area (stats ! idx)) \<and>
      filter_components m h w msk = clean \<and>
      (pix clean p = 1 \<longleftrightarrow> (\<exists>k\<in>set keep. pix labels p = int k)) \<and>
      (pix clean p = 0 \<or> pix clean p = 1) \<and>
      (pix clean p = 1 \<longleftrightarrow>
         inb h w p \<and> pix msk p \<noteq> 0 \<and> m \<le> int (card (component h w msk p))) \<and>
      (inb h w p \<and> pix msk p \<noteq> 0 \<longrightarrow> (\<exists>k<length stats. pix labels p = int k))"
proof -
  let ?l = "fst (connected_components h w msk)"
  let ?stats = "snd (connected_components h w msk)"
  let ?keep = "keep_large m ?stats"
  let ?clean = "clean_mask ?l ?keep"
  have a: "idx \<in> set ?keep \<longleftrightarrow> idx < length ?stats \<and> m \<le> stat_area (?stats ! idx)"
    by (simp add: set_keep_large)
  have b: "filter_components m h w msk = ?clean"
    by (simp add: filter_components_def case_prod_unfold)
  have c: "pix ?clean p = 1 \<longleftrightarrow> (\<exists>k\<in>set ?keep. pix ?l p = int k)"
    by (simp add: clean_mask_pix)
  have d: "pix ?clean p = 0 \<or> pix ?clean p = 1"
    by (simp add: clean_mask_pix)
  have e: "pix ?clean p = 1 \<longleftrightarrow> fg h w msk p \<and> m \<le> int (card (component h w msk p))"
  proof (cases "fg h w msk p")
    case True
    obtain k where k: "k < length ?stats" "pix ?l p = int k"
      "stat_area (?stats ! k) = int (card (component h w msk p))"
      using cc_label_component [OF True] by blast
    have "(\<exists>j\<in>set ?keep. pix ?l p = int j) \<longleftrightarrow> k \<in> set ?keep"
      using k(2) by auto
    then show ?thesis
      using True k by (simp add: c set_keep_large)
  next
    case False
    then have "pix ?l p = - 1" by (rule cc_background)
    then show ?thesis using False by (simp add: c)
  qed
  have f: "inb h w p \<and> pix msk p \<noteq> 0 \<longrightarrow> (\<exists>k<length ?stats. pix ?l p = int k)"
    using cc_label_component [of h w msk p] by (auto simp: fg_def)
  note e' = e [unfolded fg_def conj_assoc]
  show ?thesis
    unfolding Let_def
    by (intro conjI) (fact a, fact b, fact c, fact d, fact e', fact f)
qed

theorem component_filter_witness:
  "keep_large 2 (snd (connected_components 3 3 two_blobs)) = [1] \<and>
   stat_area (snd (connected_components 3 3 two_blobs) ! 1) = 2 \<and>
   pix (filter_components 2 3 3 two_blobs) (2, 2) = 1 \<and>
   pix (filter_components 2 3 3 two_blobs) (0, 0) = 0 \<and>
   inb 3 3 (2, 2) \<and> pix two_blobs (2, 2) \<noteq> 0 \<and>
   (let labels = fst (connected_components 3 3 two_blobs);
        stats = snd (connected_components 3 3 two_blobs);
        keep = keep_large 2 stats;
        clean = clean_mask labels keep
    in (1 \<in> set keep \<longleftrightarrow> 1 < length stats \<and> 2 \<le> stat_area (stats ! 1)) \<and>
       filter_components 2 3 3 two_blobs = clean \<and>
       (pix clean (2, 2) = 1 \<longleftrightarrow> (\<exists>k\<in>set keep. pix labels (2, 2) = int k)) \<and>
       (pix clean (2, 2) = 0 \<or> pix clean (2, 2) = 1) \<and>
       (pix clean (2, 2) = 1 \<longleftrightarrow>
          inb 3 3 (2, 2) \<and> pix two_blobs (2, 2) \<noteq> 0 \<and>
          2 \<le> int (card (component 3 3 two_blobs (2, 2)))) \<and>
       (inb 3 3 (2, 2) \<and> pix two_blobs (2, 2) \<noteq> 0 \<longrightarrow>
          (\<exists>k<length stats. pix labels (2, 2) = int k)))"
proof -
  have s: "snd (connected_components 3 3 two_blobs) = [(0, 0, 1, 1, 1), (2, 1, 1, 2, 2)]"
    by code_simp
  have k: "keep_large 2 (snd (connected_components 3 3 two_blobs)) = [1]"
    unfolding s by code_simp
  have a: "stat_area (snd (connected_components 3 3 two_blobs) ! 1) = 2"
    unfolding s by (simp add: stat_area_def)
  have c: "pix (filter_components 2 3 3 two_blobs) (2, 2) = 1"
    "pix (filter_components 2 3 3 two_blobs) (0, 0) = 0"
    by code_simp+
  have i: "inb 3 3 (2, 2)" "pix two_blobs (2, 2) \<noteq> 0"
    by (simp_all add: inb_def two_blobs_def pix_def)
  show ?thesis
    using k a c i component_filter [of 3 3 two_blobs 2 1 "(2, 2)"]
    by simp
qed

text \<open>
  C8. For an image of one constant intensity the run of \<open>otsu_threshold\<close> ends without
  error (no division is reached with a zero divisor), \<open>max_var\<close> still holds its sentinel
  \<open>-1\<close>, the threshold is its initial value \<open>0\<close>, and the binarisation \<open>gray < 0\<close> is
  background everywhere.
\<close>

theorem otsu_constant_image:
  assumes "float_rounding (255 * length (ravel h w gray)) rnd"
    and "\<forall>v\<in>set (ravel h w gray). v = c"
  shows "(\<exists>s. otsu_run rnd (ravel h w gray) = Inr s \<and> max_var s = - 1 \<and> threshold s = 0) \<and>
    otsu_threshold rnd (ravel h w gray) = Inr 0 \<and>
    binarize 0 gray y x = 0"
proof -
  obtain s where s: "otsu_run rnd (ravel h w gray) = Inr s"
    and best: "otsu_best rnd (ravel h w gray) 256 (max_var s) (threshold s)"
    using otsu_run_best [OF assms(1)] by blast
  have "\<not> (\<exists>u<256. candidate (ravel h w gray) u)"
    using constant_no_candidate [OF assms(2)] by blast
  then have ms: "max_var s = - 1 \<and> threshold s = 0"
    using best unfolding otsu_best_def by simp
  have "\<exists>s. otsu_run rnd (ravel h w gray) = Inr s \<and> max_var s = - 1 \<and> threshold s = 0"
    using s ms by blast
  moreover have "otsu_threshold rnd (ravel h w gray) = Inr 0"
    using s ms by (simp add: otsu_threshold_def)
  moreover have "binarize 0 gray y x = 0"
    by (simp add: binarize_def)
  ultimately show ?thesis by blast
qed

theorem otsu_constant_image_witness:
  "float_rounding (255 * length (ravel 2 3 (\<lambda>y x. 7 :: 8 word))) (\<lambda>x. x) \<and>
   set (ravel 2 3 (\<lambda>y x. 7 :: 8 word)) = {7} \<and>
   (\<exists>s. otsu_run (\<lambda>x. x) (ravel 2 3 (\<lambda>y x. 7)) = Inr s \<and> max_var s = - 1 \<and> threshold s = 0) \<and>
   otsu_threshold (\<lambda>x. x) (ravel 2 3 (\<lambda>y x. 7)) = Inr 0 \<and>
   binarize 0 (\<lambda>y x. 7) 1 2 = 0"
proof -
  have h: "float_rounding (255 * length (ravel 2 3 (\<lambda>y x. 7 :: 8 word))) (\<lambda>x. x)"
    by (simp add: float_rounding_def)
  have r: "ravel 2 3 (\<lambda>y x. 7 :: 8 word) = [7, 7, 7, 7, 7, 7]"
    by code_simp
  have c: "\<forall>v\<in>set (ravel 2 3 (\<lambda>y x. 7 :: 8 word)). v = 7"
    by (simp add: r)
  show ?thesis
    using h otsu_constant_image [OF h c, of 1 2] by (simp add: r)
qed

text \<open>
  C9. For each entry point: with fewer than two positional arguments the outcome is the exit
  with status 1 after printing the usage line of that script (the line naming the script and
  its two arguments), and no pipeline run; with two or more, the pipeline runs on the first
  two positional arguments.
\<close>

theorem cli_argument_guard:
  "(length (positional argv) < 2 \<longrightarrow>
      main_remove_interior_lines argv =
        Exit ''Usage: python3 scripts/remove_interior_lines.py <input_image> <output_image>'' 1 \<and>
      main_generate_floor_mask argv =
        Exit ''Usage: python3 scripts/generate_floor_mask.py <walls_only.png> <floor_mask.png>'' 1) \<and>
   (2 \<le> length (positional argv) \<longrightarrow>
      main_remove_interior_lines argv = Run (positional argv ! 0) (positional argv ! 1) \<and>
      main_generate_floor_mask argv = Run (positional argv ! 0) (positional argv ! 1))"
proof (cases argv)
  case Nil
  then show ?thesis
    by (simp add: positional_def main_remove_interior_lines_def main_generate_floor_mask_def)
next
  case (Cons a rest)
  then show ?thesis
    by (cases rest)
       (auto simp: positional_def main_remove_interior_lines_def main_generate_floor_mask_def
             nth_Cons split: nat.splits)
qed

theorem cli_argument_guard_witness:
  "length (positional [''prog'', ''in.png'']) < 2 \<and>
   main_remove_interior_lines [''prog'', ''in.png''] =
     Exit ''Usage: python3 scripts/remove_interior_lines.py <input_image> <output_image>'' 1 \<and>
   main_generate_floor_mask [''prog'', ''in.png''] =
     Exit ''Usage: python3 scripts/generate_floor_mask.py <walls_only.png> <floor_mask.png>'' 1 \<and>
   2 \<le> length (positional [''prog'', ''in.png'', ''out.png'', ''extra'']) \<and>
   main_remove_interior_lines [''prog'', ''in.png'', ''out.png'', ''extra''] = Run ''in.png'' ''out.png'' \<and>
   main_generate_floor_mask [''prog'', ''in.png'', ''out.png'', ''extra''] = Run ''in.png'' ''out.png''"
  using cli_argument_guard [of "[''prog'', ''in.png'']"]
        cli_argument_guard [of "[''prog'', ''in.png'', ''out.png'', ''extra'']"]
  by (simp add: positional_def)

text \<open>
  C10. Before filtering and smoothing, the wall mask, the outside mask and the candidate
  floor mask of \<open>generate_floor_mask\<close> take only the values \<open>0\<close> and \<open>1\<close>, and every
  pixel of the grid has the value \<open>1\<close> in exactly one of the three.
\<close>

theorem floor_partition:
  assumes "inb h w p"
  shows "let walls = wall_mask gray;
             outside = outside_mask h w walls;
             floor = floor_mask walls outside
         in (pix walls p = 0 \<or> pix walls p = 1) \<and>
            (pix outside p = 0 \<or> pix outside p = 1) \<and>
            (pix floor p = 0 \<or> pix floor p = 1) \<and>
            (pix walls p = 1 \<and> pix outside p = 0 \<and> pix floor p = 0 \<or>
             pix walls p = 0 \<and> pix outside p = 1 \<and> pix floor p = 0 \<or>
             pix walls p = 0 \<and> pix outside p = 0 \<and> pix floor p = 1)"
proof -
  let ?walls = "wall_mask gray"
  have w: "pix ?walls p = 0 \<or> pix ?walls p = 1"
    by (simp add: wall_mask_def pix_def)
  have o: "pix (outside_mask h w ?walls) p = 1 \<Longrightarrow> pix ?walls p = 0"
    using from_border_free [of h w ?walls p]
    by (simp add: outside_mask_pix free_def split: if_splits)
  have o01: "pix (outside_mask h w ?walls) p = 0 \<or> pix (outside_mask h w ?walls) p = 1"
    by (simp add: outside_mask_pix)
  have f: "pix (floor_mask ?walls outside) p =
      (if pix ?walls p = 0 \<and> pix outside p = 0 then 1 else 0)" for outside
    by (simp add: floor_mask_def pix_def)
  show ?thesis
    unfolding Let_def f using w o o01 by auto
qed

theorem floor_partition_witness:
  "inb 3 3 (1, 1) \<and>
   (let walls = wall_mask (\<lambda>y x. if x = 1 \<and> y = 1 then 255 else 0);
        outside = outside_mask 3 3 walls;
        floor = floor_mask walls outside
    in (pix walls (1, 1) = 0 \<or> pix walls (1, 1) = 1) \<and>
       (pix outside (1, 1) = 0 \<or> pix outside (1, 1) = 1) \<and>
       (pix floor (1, 1) = 0 \<or> pix floor (1, 1) = 1) \<and>
       (pix walls (1, 1) = 1 \<and> pix outside (1, 1) = 0 \<and> pix floor (1, 1) = 0 \<or>
        pix walls (1, 1) = 0 \<and> pix outside (1, 1) = 1 \<and> pix floor (1, 1) = 0 \<or>
        pix walls (1, 1) = 0 \<and> pix outside (1, 1) = 0 \<and> pix floor (1, 1) = 1))"
proof -
  have i: "inb 3 3 (1, 1)"
    by (simp add: inb_def)
  show ?thesis
    using i floor_partition [OF i, of "\<lambda>y x. if x = 1 \<and> y = 1 then 255 else 0"] by simp
qed

end
